theory Spec2Isabelle
  imports Main "HOL-Library.Word"
begin

section \<open>nserve hooks: the data model of hook.go\<close>

text \<open>
  The Go package keeps its hooks behind pointers: a \<open>*Hook\<close> is shared by everybody who
  holds it, a slice is a window on a backing array that two slices may share, and every
  hook owns a pointer to a mutex. The model therefore has an explicit store. Each kind of
  heap object lives in a list, an address is an index into that list, and allocation
  appends to the list, so a fresh address is one that was out of range before. A pointer
  is \<open>nat option\<close>, \<open>None\<close> being Go's \<open>nil\<close>.
\<close>

subsection \<open>Slices and backing arrays\<close>

text \<open>
  A slice header: the backing array (nil for the nil slice), the length and the capacity.
  hook.go never reslices, so every slice starts at offset 0 of its array. A cell of an
  array holds \<open>None\<close> for Go's zero value (a nil pointer, a nil interface).
\<close>

record slice =
  arr :: "nat option"
  len :: nat
  cap :: nat

definition nil_slice :: slice where
  "nil_slice = \<lparr>arr = None, len = 0, cap = 0\<rparr>"

text \<open>The elements a slice shows: the first \<open>len\<close> cells of its backing array.\<close>

definition elems :: "'a option list list \<Rightarrow> slice \<Rightarrow> 'a option list" where
  "elems as s =
     (case arr s of
        None \<Rightarrow> []
      | Some p \<Rightarrow> if p < length as then take (len s) (as ! p) else [])"

text \<open>What Go's memory safety guarantees of every slice value.\<close>

definition wf_slice :: "'a option list list \<Rightarrow> slice \<Rightarrow> bool" where
  "wf_slice as s =
     (case arr s of
        None \<Rightarrow> len s = 0 \<and> cap s = 0
      | Some p \<Rightarrow> p < length as \<and> len s \<le> cap s \<and> cap s \<le> length (as ! p))"

text \<open>\<open>make([]T, n)\<close>: a new array of \<open>n\<close> zero cells.\<close>

definition make_slice :: "'a option list list \<Rightarrow> nat \<Rightarrow> slice \<times> 'a option list list" where
  "make_slice as n = (\<lparr>arr = Some (length as), len = n, cap = n\<rparr>, as @ [replicate n None])"

text \<open>\<open>copy(dst, src)\<close>: the first \<open>min (len dst) (len src)\<close> elements are copied.\<close>

definition copy_slice :: "'a option list list \<Rightarrow> slice \<Rightarrow> slice \<Rightarrow> 'a option list list" where
  "copy_slice as dst src =
     (let n = min (len dst) (len src); xs = take n (elems as src)
      in case arr dst of
           None \<Rightarrow> as
         | Some p \<Rightarrow> if p < length as then as[p := xs @ drop n (as ! p)] else as)"

text \<open>
  \<open>append(s, e)\<close>. With spare capacity the element is written into the backing array in
  place, and every slice on that array can see the cell. Without it a larger array is
  allocated and the elements move there. How much larger is the runtime's choice: the
  parameter \<open>gc\<close> maps the old capacity to the wished new one, and the new array always
  has room for the element.
\<close>

definition append_slice ::
  "(nat \<Rightarrow> nat) \<Rightarrow> 'a option list list \<Rightarrow> slice \<Rightarrow> 'a option \<Rightarrow> slice \<times> 'a option list list" where
  "append_slice gc as s e =
     (case arr s of
        Some p \<Rightarrow>
          if len s < cap s \<and> p < length as
          then (s\<lparr>len := Suc (len s)\<rparr>, as[p := (as ! p)[len s := e]])
          else (let n = max (Suc (len s)) (gc (cap s))
                in (\<lparr>arr = Some (length as), len = Suc (len s), cap = n\<rparr>,
                    as @ [elems as s @ [e] @ replicate (n - Suc (len s)) None]))
      | None \<Rightarrow>
          (let n = max (Suc (len s)) (gc (cap s))
           in (\<lparr>arr = Some (length as), len = Suc (len s), cap = n\<rparr>,
               as @ [elems as s @ [e] @ replicate (n - Suc (len s)) None])))"

subsection \<open>Hooks and the process state\<close>

text \<open>
  \<open>hookOrder\<close> is a string type, and the two constants are what hook.go declares:
  \<open>ForwardOrder hookOrder = "forward"\<close> and, on the next line of the same block,
  \<open>ReverseOrder = "forward"\<close>.
\<close>

type_synonym hookOrder = string

definition ForwardOrder :: hookOrder where
  "ForwardOrder = ''forward''"

definition ReverseOrder :: hookOrder where
  "ReverseOrder = ''forward''"

text \<open>\<open>hookId\<close> is an \<open>int32\<close>: addition wraps, comparison is signed.\<close>

type_synonym hookId = "32 word"

text \<open>
  The struct \<open>Hook\<close>. \<open>'e\<close> is the type of non-nil error values; an \<open>error\<close> is
  \<open>'e option\<close>. The field \<open>Id\<close> is written \<open>Id_h\<close>, since \<open>Id\<close> is the identity
  relation of HOL.
\<close>

record 'e Hook =
  Id_h :: hookId
  lock :: "nat option"
  Name :: string
  Order :: hookOrder
  InvokeOnError :: slice
  ContinuePast :: bool
  ErrorCombiner :: "('e option \<Rightarrow> 'e option \<Rightarrow> 'e option) option"
  Providers :: slice

text \<open>
  The process state hook.go works on: the package variable \<open>hookCounter\<close>, the hooks, the
  mutexes (\<open>True\<close> when held), and the backing arrays of the \<open>[]*Hook\<close> and the
  \<open>[]interface{}\<close> slices.
\<close>

record ('e, 'p) world =
  hookCounter :: "32 word"
  hookHeap :: "'e Hook list"
  mutexes :: "bool list"
  hookArrays :: "nat option list list"
  provArrays :: "'p option list list"

text \<open>The state of a process before any package variable is initialised.\<close>

definition world0 :: "('e, 'p) world" where
  "world0 = \<lparr>hookCounter = 0, hookHeap = [], mutexes = [], hookArrays = [], provArrays = []\<rparr>"

text \<open>
  What goes wrong instead of a return: a nil pointer is dereferenced (a panic), or the
  goroutine waits for a mutex that is held and, nobody else running, waits for ever.
\<close>

datatype fault = NilDereference | Deadlock

definition deref :: "('e, 'p) world \<Rightarrow> nat option \<Rightarrow> 'e Hook option" where
  "deref w h =
     (case h of
        None \<Rightarrow> None
      | Some a \<Rightarrow> if a < length (hookHeap w) then Some (hookHeap w ! a) else None)"

definition set_hook :: "('e, 'p) world \<Rightarrow> nat option \<Rightarrow> 'e Hook \<Rightarrow> ('e, 'p) world" where
  "set_hook w h hk =
     (case h of
        None \<Rightarrow> w
      | Some a \<Rightarrow> w\<lparr>hookHeap := (hookHeap w)[a := hk]\<rparr>)"

definition Lock :: "('e, 'p) world \<Rightarrow> nat option \<Rightarrow> fault + ('e, 'p) world" where
  "Lock w m =
     (case m of
        None \<Rightarrow> Inl NilDereference
      | Some i \<Rightarrow>
          if \<not> i < length (mutexes w) then Inl NilDereference
          else if mutexes w ! i then Inl Deadlock
          else Inr (w\<lparr>mutexes := (mutexes w)[i := True]\<rparr>))"

definition Unlock :: "('e, 'p) world \<Rightarrow> nat option \<Rightarrow> ('e, 'p) world" where
  "Unlock w m =
     (case m of
        None \<Rightarrow> w
      | Some i \<Rightarrow> w\<lparr>mutexes := (mutexes w)[i := False]\<rparr>)"

text \<open>\<open>new(sync.Mutex)\<close>: a fresh, unlocked mutex.\<close>

definition new_Mutex :: "('e, 'p) world \<Rightarrow> nat \<times> ('e, 'p) world" where
  "new_Mutex w = (length (mutexes w), w\<lparr>mutexes := mutexes w @ [False]\<rparr>)"

text \<open>\<open>atomic.AddInt32(&hookCounter, 1)\<close>: adds with wrap-around, returns the new value.\<close>

definition AddInt32 :: "('e, 'p) world \<Rightarrow> 32 word \<times> ('e, 'p) world" where
  "AddInt32 w = (hookCounter w + 1, w\<lparr>hookCounter := hookCounter w + 1\<rparr>)"

subsection \<open>The functions of hook.go\<close>

definition NewHook ::
  "('e, 'p) world \<Rightarrow> string \<Rightarrow> hookOrder \<Rightarrow> nat option \<times> ('e, 'p) world" where
  "NewHook w name order =
     (let (i, w1) = AddInt32 w;
          (m, w2) = new_Mutex w1;
          hk = \<lparr>Id_h = i, lock = Some m, Name = name, Order = order,
                InvokeOnError = nil_slice, ContinuePast = False,
                ErrorCombiner = None, Providers = nil_slice\<rparr>
      in (Some (length (hookHeap w2)), w2\<lparr>hookHeap := hookHeap w2 @ [hk]\<rparr>))"

definition Copy ::
  "('e, 'p) world \<Rightarrow> nat option \<Rightarrow> fault + (nat option \<times> ('e, 'p) world)" where
  "Copy w h =
     (case deref w h of
        None \<Rightarrow> Inl NilDereference
      | Some hk \<Rightarrow>
          (case Lock w (lock hk) of
             Inl f \<Rightarrow> Inl f
           | Inr w1 \<Rightarrow>
               (let (oe, ha) = make_slice (hookArrays w1) (len (InvokeOnError hk));
                    ha' = copy_slice ha oe (InvokeOnError hk);
                    (op, pa) = make_slice (provArrays w1) (len (Providers hk));
                    pa' = copy_slice pa op (Providers hk);
                    w2 = w1\<lparr>hookArrays := ha', provArrays := pa'\<rparr>;
                    (i, w3) = AddInt32 w2;
                    (m, w4) = new_Mutex w3;
                    hc = hk\<lparr>InvokeOnError := oe, Id_h := i, Providers := op, lock := Some m\<rparr>;
                    w5 = w4\<lparr>hookHeap := hookHeap w4 @ [hc]\<rparr>
                in Inr (Some (length (hookHeap w4)), Unlock w5 (lock hk)))))"

definition OnError ::
  "(nat \<Rightarrow> nat) \<Rightarrow> ('e, 'p) world \<Rightarrow> nat option \<Rightarrow> nat option
     \<Rightarrow> fault + (nat option \<times> ('e, 'p) world)" where
  "OnError gc w h e =
     (case deref w h of
        None \<Rightarrow> Inl NilDereference
      | Some hk \<Rightarrow>
          (case Lock w (lock hk) of
             Inl f \<Rightarrow> Inl f
           | Inr w1 \<Rightarrow>
               (let w2 = (if e = None
                          then set_hook w1 h (hk\<lparr>InvokeOnError := nil_slice\<rparr>)
                          else (let (s, ha) = append_slice gc (hookArrays w1) (InvokeOnError hk) e
                                in set_hook (w1\<lparr>hookArrays := ha\<rparr>) h (hk\<lparr>InvokeOnError := s\<rparr>)))
                in Inr (h, Unlock w2 (lock hk)))))"

definition SetErrorCombiner ::
  "('e, 'p) world \<Rightarrow> nat option \<Rightarrow> ('e option \<Rightarrow> 'e option \<Rightarrow> 'e option) option
     \<Rightarrow> fault + (nat option \<times> ('e, 'p) world)" where
  "SetErrorCombiner w h f =
     (case deref w h of
        None \<Rightarrow> Inl NilDereference
      | Some hk \<Rightarrow>
          (case Lock w (lock hk) of
             Inl x \<Rightarrow> Inl x
           | Inr w1 \<Rightarrow>
               Inr (h, Unlock (set_hook w1 h (hk\<lparr>ErrorCombiner := f\<rparr>)) (lock hk))))"

definition ContinuePastError ::
  "('e, 'p) world \<Rightarrow> nat option \<Rightarrow> bool \<Rightarrow> fault + (nat option \<times> ('e, 'p) world)" where
  "ContinuePastError w h b =
     (case deref w h of
        None \<Rightarrow> Inl NilDereference
      | Some hk \<Rightarrow>
          (case Lock w (lock hk) of
             Inl x \<Rightarrow> Inl x
           | Inr w1 \<Rightarrow>
               Inr (h, Unlock (set_hook w1 h (hk\<lparr>ContinuePast := b\<rparr>)) (lock hk))))"

definition String :: "('e, 'p) world \<Rightarrow> nat option \<Rightarrow> fault + string" where
  "String w h =
     (case deref w h of
        None \<Rightarrow> Inl NilDereference
      | Some hk \<Rightarrow> Inr (''hook '' @ Name hk))"

text \<open>
  The three package variables, in the order Go initialises them: \<open>Shutdown\<close> depends on
  nothing, \<open>Stop\<close> on \<open>Shutdown\<close>, \<open>Start\<close> on \<open>Stop\<close>. The result is the three pointers
  \<open>(Start, Stop, Shutdown)\<close> and the state they live in.
\<close>

definition package_init ::
  "(nat \<Rightarrow> nat) \<Rightarrow> fault + (nat option \<times> nat option \<times> nat option \<times> ('e, 'p) world)" where
  "package_init gc =
     (let (shutdown, w1) = NewHook world0 ''shutdown'' ReverseOrder;
          (s0, w2) = NewHook w1 ''stop'' ReverseOrder
      in case OnError gc w2 s0 shutdown of
           Inl f \<Rightarrow> Inl f
         | Inr (s1, w3) \<Rightarrow>
             (case ContinuePastError w3 s1 True of
                Inl f \<Rightarrow> Inl f
              | Inr (stop, w4) \<Rightarrow>
                  (let (t0, w5) = NewHook w4 ''start'' ForwardOrder
                   in case OnError gc w5 t0 stop of
                        Inl f \<Rightarrow> Inl f
                      | Inr (start, w6) \<Rightarrow> Inr (start, stop, shutdown, w6))))"

text \<open>
  No function of hook.go appends to \<open>Providers\<close>; the field is exported and a caller
  does it with the statement \<open>h.Providers = append(h.Providers, v)\<close>.
\<close>

definition append_provider ::
  "(nat \<Rightarrow> nat) \<Rightarrow> ('e, 'p) world \<Rightarrow> nat option \<Rightarrow> 'p option \<Rightarrow> fault + ('e, 'p) world" where
  "append_provider gc w h v =
     (case deref w h of
        None \<Rightarrow> Inl NilDereference
      | Some hk \<Rightarrow>
          (let (s, pa) = append_slice gc (provArrays w) (Providers hk) v
           in Inr (set_hook (w\<lparr>provArrays := pa\<rparr>) h (hk\<lparr>Providers := s\<rparr>))))"

subsection \<open>Reading a hook, and programs over hooks\<close>

text \<open>The cascade list and the callback list of a hook, as the slices show them.\<close>

definition cascade :: "('e, 'p) world \<Rightarrow> nat option \<Rightarrow> nat option list" where
  "cascade w h =
     (case deref w h of
        None \<Rightarrow> []
      | Some hk \<Rightarrow> elems (hookArrays w) (InvokeOnError hk))"

definition providers :: "('e, 'p) world \<Rightarrow> nat option \<Rightarrow> 'p option list" where
  "providers w h =
     (case deref w h of
        None \<Rightarrow> []
      | Some hk \<Rightarrow> elems (provArrays w) (Providers hk))"

text \<open>
  A hook a method can be called on: its mutex exists and is free, and its two slices are
  slices of the store.
\<close>

definition usable_hook :: "('e, 'p) world \<Rightarrow> 'e Hook \<Rightarrow> bool" where
  "usable_hook w hk =
     ((case lock hk of
         None \<Rightarrow> False
       | Some m \<Rightarrow> m < length (mutexes w) \<and> \<not> mutexes w ! m)
      \<and> wf_slice (hookArrays w) (InvokeOnError hk)
      \<and> wf_slice (provArrays w) (Providers hk))"

definition usable :: "('e, 'p) world \<Rightarrow> nat option \<Rightarrow> bool" where
  "usable w h =
     (case deref w h of
        None \<Rightarrow> False
      | Some hk \<Rightarrow> usable_hook w hk)"

text \<open>
  The states a program can be in between two calls: the counter has been bumped once for
  each hook, the hook created as number \<open>i + 1\<close> carries the counter's value then, and
  every hook is usable.
\<close>

definition wf_world :: "('e, 'p) world \<Rightarrow> bool" where
  "wf_world w =
     (hookCounter w = of_nat (length (hookHeap w))
      \<and> map Id_h (hookHeap w) = map (\<lambda>i. of_nat (Suc i)) [0..<length (hookHeap w)]
      \<and> list_all (usable_hook w) (hookHeap w))"

text \<open>A program, as far as hooks are concerned, is a sequence of these calls.\<close>

datatype ('e, 'p) op =
    NewHookOp string hookOrder
  | CopyOp "nat option"
  | OnErrorOp "nat option" "nat option"
  | SetErrorCombinerOp "nat option" "('e option \<Rightarrow> 'e option \<Rightarrow> 'e option) option"
  | ContinuePastErrorOp "nat option" bool
  | AppendProviderOp "nat option" "'p option"

fun apply_op :: "(nat \<Rightarrow> nat) \<Rightarrow> ('e, 'p) world \<Rightarrow> ('e, 'p) op \<Rightarrow> fault + ('e, 'p) world" where
  "apply_op gc w (NewHookOp name order) = Inr (snd (NewHook w name order))"
| "apply_op gc w (CopyOp h) = map_sum id snd (Copy w h)"
| "apply_op gc w (OnErrorOp h e) = map_sum id snd (OnError gc w h e)"
| "apply_op gc w (SetErrorCombinerOp h f) = map_sum id snd (SetErrorCombiner w h f)"
| "apply_op gc w (ContinuePastErrorOp h b) = map_sum id snd (ContinuePastError w h b)"
| "apply_op gc w (AppendProviderOp h v) = append_provider gc w h v"

fun run_ops :: "(nat \<Rightarrow> nat) \<Rightarrow> ('e, 'p) world \<Rightarrow> ('e, 'p) op list \<Rightarrow> fault + ('e, 'p) world" where
  "run_ops gc w [] = Inr w"
| "run_ops gc w (x # xs) =
     (case apply_op gc w x of
        Inl f \<Rightarrow> Inl f
      | Inr w' \<Rightarrow> run_ops gc w' xs)"

text \<open>
  The appends of a program to the two lists of one hook: what \<open>OnError\<close> with a non-nil
  target adds to the cascade list, and what is appended to \<open>Providers\<close>.
\<close>

fun cascade_added :: "nat option \<Rightarrow> ('e, 'p) op list \<Rightarrow> nat option list" where
  "cascade_added h [] = []"
| "cascade_added h (OnErrorOp h' e # xs) =
     (if h' = h \<and> e \<noteq> None then e # cascade_added h xs else cascade_added h xs)"
| "cascade_added h (x # xs) = cascade_added h xs"

fun providers_added :: "nat option \<Rightarrow> ('e, 'p) op list \<Rightarrow> 'p option list" where
  "providers_added h [] = []"
| "providers_added h (AppendProviderOp h' v # xs) =
     (if h' = h then v # providers_added h xs else providers_added h xs)"
| "providers_added h (x # xs) = providers_added h xs"

text \<open>A program that only appends, and only to the hooks \<open>a\<close> and \<open>b\<close>.\<close>

fun appends_to :: "nat option \<Rightarrow> nat option \<Rightarrow> ('e, 'p) op \<Rightarrow> bool" where
  "appends_to a b (OnErrorOp h e) = ((h = a \<or> h = b) \<and> e \<noteq> None)"
| "appends_to a b (AppendProviderOp h v) = (h = a \<or> h = b)"
| "appends_to a b x = False"

text \<open>
  Two hooks that can be used side by side: they are different hooks, both are usable, and
  neither of the two slices of the one shares a backing array with the same slice of the
  other.
\<close>

definition disjoint_arr :: "slice \<Rightarrow> slice \<Rightarrow> bool" where
  "disjoint_arr s t = (arr s = None \<or> arr s \<noteq> arr t)"

definition separate :: "('e, 'p) world \<Rightarrow> nat option \<Rightarrow> nat option \<Rightarrow> bool" where
  "separate w a b =
     (a \<noteq> b \<and>
      (case (deref w a, deref w b) of
         (Some ha, Some hb) \<Rightarrow>
           usable_hook w ha \<and> usable_hook w hb
           \<and> disjoint_arr (InvokeOnError ha) (InvokeOnError hb)
           \<and> disjoint_arr (Providers ha) (Providers hb)
       | _ \<Rightarrow> False))"

section \<open>Dispatch\<close>

text \<open>
  Modelled from the spec: the \<open>App\<close> and its per-hook registry of callback descriptors
  (spec section 3); the file that declares it is not among the sources. \<open>'c\<close> is the type
  of callback descriptors, \<open>'s\<close> the value-provider context. The registry is keyed by
  the hook's identifier; a hook without an entry has the empty list.
\<close>

record ('c, 's) App =
  appName :: string
  registry :: "hookId \<Rightarrow> 'c list"
  vals :: 's

text \<open>
  Modelled from the spec: \<open>On(hook, callback)\<close> (spec section 4.2), which is not among
  the sources: it appends the callback to the App's registry entry for the hook.
\<close>

definition On ::
  "('e, 'p) world \<Rightarrow> ('c, 's) App \<Rightarrow> nat option \<Rightarrow> 'c \<Rightarrow> fault + ('c, 's) App" where
  "On w app h c =
     (case deref w h of
        None \<Rightarrow> Inl NilDereference
      | Some hk \<Rightarrow>
          Inr (app\<lparr>registry := (registry app)(Id_h hk := registry app (Id_h hk) @ [c])\<rparr>))"

text \<open>
  Modelled from the spec: a sequence of registrations with \<open>On\<close>, in order; the
  first that faults ends it.
\<close>

fun register ::
  "('e, 'p) world \<Rightarrow> ('c, 's) App \<Rightarrow> (nat option \<times> 'c) list \<Rightarrow> fault + ('c, 's) App" where
  "register w app [] = Inr app"
| "register w app ((h, c) # xs) =
     (case On w app h c of
        Inl f \<Rightarrow> Inl f
      | Inr app' \<Rightarrow> register w app' xs)"

text \<open>
  Modelled from the spec: step 4 of the dispatch algorithm (spec section 4.3), error
  accumulation; \<open>Do\<close> is not among the sources. \<open>seen\<close> tells whether an error has
  occurred before. On the first error the accumulated error is that error; on a later
  one it is \<open>combiner(accumulated, newError)\<close> with a combiner installed and stays what it
  is without one.
\<close>

definition accumulate ::
  "('e option \<Rightarrow> 'e option \<Rightarrow> 'e option) option \<Rightarrow> bool \<Rightarrow> 'e option \<Rightarrow> 'e \<Rightarrow> 'e option" where
  "accumulate comb seen acc e =
     (if \<not> seen then Some e
      else case comb of
             Some f \<Rightarrow> f acc (Some e)
           | None \<Rightarrow> acc)"

text \<open>
  Modelled from the spec: steps 3 and 4 of the dispatch algorithm (spec section 4.3),
  the loop over the callbacks in iteration order; \<open>Do\<close> is not among the sources. The
  external callback resolver and the call are the parameter \<open>invoke\<close>: invoking a
  descriptor in an App gives an optional error and the App the callback leaves behind.
  The state of the loop is the accumulated error, whether an error has occurred, the
  callbacks invoked so far with what each returned, and the App. With the continue flag
  false the loop stops at the first error.
\<close>

fun run_callbacks ::
  "('c \<Rightarrow> ('c, 's) App \<Rightarrow> 'e option \<times> ('c, 's) App) \<Rightarrow> bool
     \<Rightarrow> ('e option \<Rightarrow> 'e option \<Rightarrow> 'e option) option \<Rightarrow> 'c list
     \<Rightarrow> 'e option \<times> bool \<times> ('c \<times> 'e option) list \<times> ('c, 's) App
     \<Rightarrow> 'e option \<times> bool \<times> ('c \<times> 'e option) list \<times> ('c, 's) App" where
  "run_callbacks invoke cont comb [] st = st"
| "run_callbacks invoke cont comb (c # cs) (acc, seen, tr, app) =
     (case invoke c app of
        (None, app') \<Rightarrow> run_callbacks invoke cont comb cs (acc, seen, tr @ [(c, None)], app')
      | (Some e, app') \<Rightarrow>
          (let st' = (accumulate comb seen acc e, True, tr @ [(c, Some e)], app')
           in if cont then run_callbacks invoke cont comb cs st' else st'))"

text \<open>
  Modelled from the spec: step 5 of the dispatch algorithm and the cascade error of
  spec section 7; \<open>Do\<close> is not among the sources. Each cascade target is dispatched in
  list order with the same App, by the dispatcher \<open>d\<close>; an error it returns is combined
  with the accumulated one by the outer hook's combiner, and dropped without a combiner.
\<close>

fun cascade_loop ::
  "(('c, 's) App \<Rightarrow> nat option
      \<Rightarrow> (fault + 'e option \<times> ('c \<times> 'e option) list \<times> ('c, 's) App) option)
     \<Rightarrow> ('e option \<Rightarrow> 'e option \<Rightarrow> 'e option) option \<Rightarrow> nat option list
     \<Rightarrow> 'e option \<times> ('c \<times> 'e option) list \<times> ('c, 's) App
     \<Rightarrow> (fault + 'e option \<times> ('c \<times> 'e option) list \<times> ('c, 's) App) option" where
  "cascade_loop d comb [] st = Some (Inr st)"
| "cascade_loop d comb (t # ts) (acc, tr, app) =
     (case d app t of
        None \<Rightarrow> None
      | Some (Inl f) \<Rightarrow> Some (Inl f)
      | Some (Inr (e, tr', app')) \<Rightarrow>
          cascade_loop d comb ts
            ((case e of None \<Rightarrow> acc | Some e' \<Rightarrow> accumulate comb True acc e'),
             tr @ tr', app'))"

text \<open>
  Modelled from the spec: \<open>Do(app, hook)\<close> without a timeout (spec section 4.3, steps 1
  to 6), which is not among the sources. The hook's configuration is read under its
  lock; the App's callbacks for the hook are iterated back to front if the order is
  Reverse and front to back otherwise; if the loop ends with an error the cascade targets
  are dispatched. The spec has no guard against a cascade that leads back to the same
  hook, so the recursion takes fuel, and \<open>None\<close> is a dispatch that has not returned
  within it. A result is the accumulated error, the callbacks invoked in order, each
  with what it returned, and the App.
\<close>

primrec Do ::
  "nat \<Rightarrow> ('c \<Rightarrow> ('c, 's) App \<Rightarrow> 'e option \<times> ('c, 's) App) \<Rightarrow> ('e, 'p) world
     \<Rightarrow> ('c, 's) App \<Rightarrow> nat option
     \<Rightarrow> (fault + 'e option \<times> ('c \<times> 'e option) list \<times> ('c, 's) App) option" where
  "Do 0 invoke w app h = None"
| "Do (Suc n) invoke w app h =
     (case deref w h of
        None \<Rightarrow> Some (Inl NilDereference)
      | Some hk \<Rightarrow>
          (case Lock w (lock hk) of
             Inl f \<Rightarrow> Some (Inl f)
           | Inr w1 \<Rightarrow>
               (let cbs = registry app (Id_h hk);
                    order = (if Order hk = ReverseOrder then rev cbs else cbs);
                    (acc, seen, tr, app1) =
                       run_callbacks invoke (ContinuePast hk) (ErrorCombiner hk) order
                         (None, False, [], app)
                in if acc = None then Some (Inr (None, tr, app1))
                   else cascade_loop (\<lambda>a t. Do n invoke w a t) (ErrorCombiner hk)
                          (elems (hookArrays w) (InvokeOnError hk)) (acc, tr, app1))))"


text \<open>
  What every callback of a list returns when they are invoked one after the other, each
  in the App the one before it left behind, and the App after the last.
\<close>

fun invoke_all ::
  "('c \<Rightarrow> ('c, 's) App \<Rightarrow> 'e option \<times> ('c, 's) App) \<Rightarrow> 'c list \<Rightarrow> ('c, 's) App
     \<Rightarrow> ('c \<times> 'e option) list" where
  "invoke_all invoke [] app = []"
| "invoke_all invoke (c # cs) app =
     (c, fst (invoke c app)) # invoke_all invoke cs (snd (invoke c app))"


text \<open>The invocations up to the first one that returns an error, that one included.\<close>

fun upto_first_error :: "('c \<times> 'e option) list \<Rightarrow> ('c \<times> 'e option) list" where
  "upto_first_error [] = []"
| "upto_first_error ((c, None) # xs) = (c, None) # upto_first_error xs"
| "upto_first_error ((c, Some e) # xs) = [(c, Some e)]"

text \<open>The errors in a list of invoked callbacks, in order.\<close>

fun errors_of :: "('c \<times> 'e option) list \<Rightarrow> 'e list" where
  "errors_of [] = []"
| "errors_of ((c, None) # xs) = errors_of xs"
| "errors_of ((c, Some e) # xs) = e # errors_of xs"




section \<open>Concrete programs\<close>

text \<open>A growth rule for \<open>append\<close>: the capacity doubles.\<close>

definition double_cap :: "nat \<Rightarrow> nat" where
  "double_cap c = 2 * c"

text \<open>The state right after the package variables are initialised.\<close>

definition init_world :: "(nat, nat) world" where
  "init_world =
     (case package_init double_cap of
        Inl f \<Rightarrow> world0
      | Inr (start, stop, shutdown, w) \<Rightarrow> w)"

text \<open>The initialisation of the package variables as a program.\<close>

definition init_ops :: "(nat, nat) op list" where
  "init_ops =
     [NewHookOp ''shutdown'' ReverseOrder, NewHookOp ''stop'' ReverseOrder,
      OnErrorOp (Some 1) (Some 0), ContinuePastErrorOp (Some 1) True,
      NewHookOp ''start'' ForwardOrder, OnErrorOp (Some 2) (Some 1)]"

text \<open>
  Appends to the predefined \<open>Stop\<close> hook, which is hook 1, and to the hook that will be
  hook 3, in turns.
\<close>

definition turn_appends :: "(nat, nat) op list" where
  "turn_appends =
     [OnErrorOp (Some 3) (Some 2), OnErrorOp (Some 1) (Some 2), OnErrorOp (Some 3) (Some 0),
      AppendProviderOp (Some 1) (Some 7), AppendProviderOp (Some 3) (Some 8),
      AppendProviderOp (Some 1) (Some 9), OnErrorOp (Some 1) (Some 1)]"

text \<open>A program that creates \<open>n\<close> hooks.\<close>

definition many_hooks :: "nat \<Rightarrow> (nat, nat) op list" where
  "many_hooks n = replicate n (NewHookOp ''h'' ForwardOrder)"

text \<open>
  Two hooks, the first made with \<open>ForwardOrder\<close> and the second with \<open>ReverseOrder\<close>,
  and an App in which the callbacks 1 and 2 are registered, in this order, on each.
  No callback fails.
\<close>

definition two_orders_world :: "(nat, nat) world" where
  "two_orders_world =
     snd (NewHook (snd (NewHook world0 ''f'' ForwardOrder)) ''r'' ReverseOrder)"

definition empty_app :: "(nat, unit) App" where
  "empty_app = \<lparr>appName = ''app'', registry = (\<lambda>i. []), vals = ()\<rparr>"

definition two_orders_app :: "(nat, unit) App" where
  "two_orders_app =
     (case register two_orders_world empty_app
             [(Some 0, 1), (Some 0, 2), (Some 1, 1), (Some 1, 2)] of
        Inl f \<Rightarrow> empty_app
      | Inr app \<Rightarrow> app)"

definition succeed :: "nat \<Rightarrow> (nat, unit) App \<Rightarrow> nat option \<times> (nat, unit) App" where
  "succeed c app = (None, app)"

text \<open>
  A hook with continue-past-error false, a combiner that keeps the second error, and a
  second hook as cascade target; one callback on each, and every callback fails with its
  own number as the error.
\<close>

definition keep_second :: "nat option \<Rightarrow> nat option \<Rightarrow> nat option" where
  "keep_second first second = second"

definition cascading_world :: "(nat, nat) world" where
  "cascading_world =
     (case run_ops double_cap world0
             [NewHookOp ''h'' ForwardOrder, NewHookOp ''c'' ForwardOrder,
              OnErrorOp (Some 0) (Some 1), SetErrorCombinerOp (Some 0) (Some keep_second)] of
        Inl f \<Rightarrow> world0
      | Inr w \<Rightarrow> w)"

definition cascading_app :: "(nat, unit) App" where
  "cascading_app =
     (case register cascading_world empty_app [(Some 0, 10), (Some 1, 20)] of
        Inl f \<Rightarrow> empty_app
      | Inr app \<Rightarrow> app)"

definition fail_with_own :: "nat \<Rightarrow> (nat, unit) App \<Rightarrow> nat option \<times> (nat, unit) App" where
  "fail_with_own c app = (Some c, app)"

text \<open>
  Three callbacks on the predefined \<open>Shutdown\<close> hook, of which the second fails with
  the error 7.
\<close>

definition second_fails :: "nat \<Rightarrow> (nat, unit) App \<Rightarrow> nat option \<times> (nat, unit) App" where
  "second_fails c app = (if c = 2 then Some 7 else None, app)"

definition three_app :: "(nat, unit) App" where
  "three_app =
     (case register init_world empty_app [(Some 0, 1), (Some 0, 2), (Some 0, 3)] of
        Inl f \<Rightarrow> empty_app
      | Inr app \<Rightarrow> app)"




section \<open>Slices\<close>

text \<open>
  What \<open>make\<close>, \<open>copy\<close> and \<open>append\<close> do to the elements a slice shows, and to the
  slices on other arrays.
\<close>

lemma elems_nil_slice: "elems as nil_slice = []"
  by (simp add: elems_def nil_slice_def)

lemma wf_nil_slice: "wf_slice as nil_slice"
  by (simp add: wf_slice_def nil_slice_def)

lemma length_elems: "wf_slice as s \<Longrightarrow> length (elems as s) = len s"
  by (auto simp: wf_slice_def elems_def split: option.splits)

lemma wf_slice_mono:
  assumes "wf_slice as s" and "length as \<le> length as'"
    and "\<And>p. p < length as \<Longrightarrow> length (as' ! p) = length (as ! p)"
  shows "wf_slice as' s"
  using assms by (auto simp: wf_slice_def split: option.splits)

lemma elems_same:
  assumes "wf_slice as s" and "length as \<le> length as'"
    and "\<And>p. arr s = Some p \<Longrightarrow> as' ! p = as ! p"
  shows "elems as' s = elems as s"
  using assms by (auto simp: wf_slice_def elems_def split: option.splits)

lemma append_slice_length:
  "append_slice gc as s e = (s', as') \<Longrightarrow> length as \<le> length as'"
  by (auto simp: append_slice_def Let_def split: option.splits if_splits)

lemma append_slice_lengths:
  "append_slice gc as s e = (s', as') \<Longrightarrow> p < length as \<Longrightarrow> length (as' ! p) = length (as ! p)"
  by (auto simp: append_slice_def Let_def nth_append nth_list_update split: option.splits if_splits)

lemma append_slice_others:
  "append_slice gc as s e = (s', as') \<Longrightarrow> p < length as \<Longrightarrow> arr s \<noteq> Some p \<Longrightarrow> as' ! p = as ! p"
  by (auto simp: append_slice_def Let_def nth_append nth_list_update split: option.splits if_splits)

lemma append_slice_arr:
  "append_slice gc as s e = (s', as') \<Longrightarrow> arr s' = arr s \<or> arr s' = Some (length as)"
  by (auto simp: append_slice_def Let_def split: option.splits if_splits)

lemma append_slice_wf:
  "wf_slice as s \<Longrightarrow> append_slice gc as s e = (s', as') \<Longrightarrow> wf_slice as' s'"
  by (auto simp: append_slice_def Let_def wf_slice_def elems_def nth_append split: option.splits if_splits)

lemma append_slice_elems:
  "wf_slice as s \<Longrightarrow> append_slice gc as s e = (s', as') \<Longrightarrow> elems as' s' = elems as s @ [e]"
  by (auto simp: append_slice_def Let_def wf_slice_def elems_def nth_append take_Suc_conv_app_nth
      split: option.splits if_splits)

lemma make_copy_elems:
  assumes "wf_slice as src" and "make_slice as (len src) = (dst, as1)"
  shows "copy_slice as1 dst src = as @ [elems as src]"
  using assms
  by (auto simp: make_slice_def copy_slice_def Let_def wf_slice_def elems_def nth_append
      split: option.splits)

section \<open>The functions on a usable hook\<close>

text \<open>
  On a usable hook no function faults, the mutex is free again when the function returns,
  and the state it returns can be written down.
\<close>

lemma relock:
  "usable_hook w hk \<Longrightarrow> lock hk = Some m \<Longrightarrow> ((mutexes w)[m := True])[m := False] = mutexes w"
  by (simp add: usable_hook_def list_update_same_conv)

lemma usable_lock: "usable_hook w hk \<Longrightarrow> \<exists>m. lock hk = Some m \<and> m < length (mutexes w) \<and> \<not> mutexes w ! m"
  by (auto simp: usable_hook_def split: option.splits)

lemma Lock_usable:
  "usable_hook w hk \<Longrightarrow> lock hk = Some m \<Longrightarrow> Lock w (Some m) = Inr (w\<lparr>mutexes := (mutexes w)[m := True]\<rparr>)"
  by (auto simp: usable_hook_def Lock_def)

lemma OnError_nil_result:
  assumes "deref w h = Some hk" and "usable_hook w hk"
  shows "OnError gc w h None = Inr (h, set_hook w h (hk\<lparr>InvokeOnError := nil_slice\<rparr>))"
proof -
  obtain m where m: "lock hk = Some m" using usable_lock [OF assms(2)] by blast
  show ?thesis
    using assms m relock [OF assms(2) m]
    by (cases h) (simp_all add: OnError_def Lock_usable [OF assms(2) m] Unlock_def set_hook_def deref_def)
qed

lemma OnError_Some_result:
  assumes "deref w h = Some hk" and "usable_hook w hk"
    and "append_slice gc (hookArrays w) (InvokeOnError hk) (Some t) = (s, ha)"
  shows "OnError gc w h (Some t) =
           Inr (h, set_hook (w\<lparr>hookArrays := ha\<rparr>) h (hk\<lparr>InvokeOnError := s\<rparr>))"
proof -
  obtain m where m: "lock hk = Some m" using usable_lock [OF assms(2)] by blast
  show ?thesis
    using assms m relock [OF assms(2) m]
    by (cases h) (simp_all add: OnError_def Lock_usable [OF assms(2) m] Unlock_def set_hook_def deref_def)
qed

lemma SetErrorCombiner_result:
  assumes "deref w h = Some hk" and "usable_hook w hk"
  shows "SetErrorCombiner w h f = Inr (h, set_hook w h (hk\<lparr>ErrorCombiner := f\<rparr>))"
proof -
  obtain m where m: "lock hk = Some m" using usable_lock [OF assms(2)] by blast
  show ?thesis
    using assms m relock [OF assms(2) m]
    by (cases h) (simp_all add: SetErrorCombiner_def Lock_usable [OF assms(2) m] Unlock_def set_hook_def deref_def)
qed

lemma ContinuePastError_result:
  assumes "deref w h = Some hk" and "usable_hook w hk"
  shows "ContinuePastError w h b = Inr (h, set_hook w h (hk\<lparr>ContinuePast := b\<rparr>))"
proof -
  obtain m where m: "lock hk = Some m" using usable_lock [OF assms(2)] by blast
  show ?thesis
    using assms m relock [OF assms(2) m]
    by (cases h) (simp_all add: ContinuePastError_def Lock_usable [OF assms(2) m] Unlock_def set_hook_def deref_def)
qed

lemma NewHook_result:
  "NewHook w name order =
     (Some (length (hookHeap w)),
      w\<lparr>hookCounter := hookCounter w + 1,
        mutexes := mutexes w @ [False],
        hookHeap := hookHeap w @
          [\<lparr>Id_h = hookCounter w + 1, lock = Some (length (mutexes w)), Name = name,
            Order = order, InvokeOnError = nil_slice, ContinuePast = False,
            ErrorCombiner = None, Providers = nil_slice\<rparr>]\<rparr>)"
  by (simp add: NewHook_def AddInt32_def new_Mutex_def)

lemma Copy_result:
  assumes "deref w h = Some hk" and "usable_hook w hk"
  shows "Copy w h =
     Inr (Some (length (hookHeap w)),
          w\<lparr>hookCounter := hookCounter w + 1,
            mutexes := mutexes w @ [False],
            hookArrays := hookArrays w @ [elems (hookArrays w) (InvokeOnError hk)],
            provArrays := provArrays w @ [elems (provArrays w) (Providers hk)],
            hookHeap := hookHeap w @
              [hk\<lparr>InvokeOnError :=
                    \<lparr>arr = Some (length (hookArrays w)), len = len (InvokeOnError hk),
                     cap = len (InvokeOnError hk)\<rparr>,
                  Id_h := hookCounter w + 1,
                  Providers :=
                    \<lparr>arr = Some (length (provArrays w)), len = len (Providers hk),
                     cap = len (Providers hk)\<rparr>,
                  lock := Some (length (mutexes w))\<rparr>]\<rparr>)"
proof -
  obtain m where m: "lock hk = Some m" using usable_lock [OF assms(2)] by blast
  have wf1: "wf_slice (hookArrays w) (InvokeOnError hk)"
    and wf2: "wf_slice (provArrays w) (Providers hk)"
    using assms(2) by (simp_all add: usable_hook_def)
  have m1: "make_slice (hookArrays w) (len (InvokeOnError hk)) =
      (\<lparr>arr = Some (length (hookArrays w)), len = len (InvokeOnError hk), cap = len (InvokeOnError hk)\<rparr>,
       hookArrays w @ [replicate (len (InvokeOnError hk)) None])"
    by (simp add: make_slice_def)
  have m2: "make_slice (provArrays w) (len (Providers hk)) =
      (\<lparr>arr = Some (length (provArrays w)), len = len (Providers hk), cap = len (Providers hk)\<rparr>,
       provArrays w @ [replicate (len (Providers hk)) None])"
    by (simp add: make_slice_def)
  note c1 = make_copy_elems [OF wf1 m1]
  note c2 = make_copy_elems [OF wf2 m2]
  have ml: "m < length (mutexes w)" using assms(2) m by (simp add: usable_hook_def)
  have unl: "((mutexes w)[m := True] @ [False])[m := False] = mutexes w @ [False]"
    using relock [OF assms(2) m] ml by (simp add: list_update_append)
  show ?thesis
    using assms(1) m unl
    by (simp add: Copy_def Lock_usable [OF assms(2) m] m1 m2 c1 c2 AddInt32_def new_Mutex_def
        Unlock_def)
qed

section \<open>The invariant of a running program\<close>

text \<open>
  The initial state is well formed and every call keeps it so: the identifiers of the
  hooks are the values the counter has taken, in the order of creation, and every hook
  stays usable.
\<close>

lemma usable_hook_mono:
  assumes "usable_hook w hk"
    and "length (mutexes w) \<le> length (mutexes w')"
    and "\<And>m. m < length (mutexes w) \<Longrightarrow> mutexes w' ! m = mutexes w ! m"
    and "length (hookArrays w) \<le> length (hookArrays w')"
    and "\<And>p. p < length (hookArrays w) \<Longrightarrow> length (hookArrays w' ! p) = length (hookArrays w ! p)"
    and "length (provArrays w) \<le> length (provArrays w')"
    and "\<And>p. p < length (provArrays w) \<Longrightarrow> length (provArrays w' ! p) = length (provArrays w ! p)"
  shows "usable_hook w' hk"
proof -
  obtain m where m: "lock hk = Some m" "m < length (mutexes w)" "\<not> mutexes w ! m"
    using usable_lock [OF assms(1)] by blast
  have "wf_slice (hookArrays w') (InvokeOnError hk)"
    using assms(1,4,5) by (auto simp: usable_hook_def intro: wf_slice_mono)
  moreover have "wf_slice (provArrays w') (Providers hk)"
    using assms(1,6,7) by (auto simp: usable_hook_def intro: wf_slice_mono)
  ultimately show ?thesis
    using m assms(2,3) by (simp add: usable_hook_def)
qed

lemma wf_world_usable:
  "wf_world w \<Longrightarrow> deref w h = Some hk \<Longrightarrow> usable_hook w hk"
  by (auto simp: wf_world_def deref_def list_all_length split: option.splits if_splits)

lemma wf_world_Id:
  "wf_world w \<Longrightarrow> i < length (hookHeap w) \<Longrightarrow> Id_h (hookHeap w ! i) = of_nat (Suc i)"
proof -
  assume w: "wf_world w" and i: "i < length (hookHeap w)"
  have "map Id_h (hookHeap w) ! i = map (\<lambda>i. of_nat (Suc i)) [0..<length (hookHeap w)] ! i"
    using w by (simp add: wf_world_def)
  then show ?thesis using i by simp
qed

lemma map_Id_update:
  assumes "Id_h hk = Id_h (xs ! a)"
  shows "map Id_h (xs[a := hk]) = map Id_h xs"
proof (cases "a < length xs")
  case True
  then show ?thesis using assms by (simp add: map_update list_update_same_conv)
next
  case False
  then have "xs[a := hk] = xs" by (simp add: list_update_beyond)
  then show ?thesis by simp
qed

lemma wf_world0: "wf_world world0"
  by (simp add: wf_world_def world0_def)

lemma wf_world_NewHook:
  assumes "wf_world w"
  shows "wf_world (snd (NewHook w name order))"
proof -
  let ?w' = "snd (NewHook w name order)"
  have old: "list_all (usable_hook ?w') (hookHeap w)"
    unfolding list_all_iff
  proof
    fix hk assume "hk \<in> set (hookHeap w)"
    then have "usable_hook w hk" using assms by (simp add: wf_world_def list_all_iff)
    then show "usable_hook ?w' hk"
      by (rule usable_hook_mono) (simp_all add: NewHook_result nth_append)
  qed
  show ?thesis
    using assms old
    by (simp add: wf_world_def NewHook_result usable_hook_def wf_nil_slice)
qed

lemma deref_Some: "deref w h = Some hk \<Longrightarrow> \<exists>a. h = Some a \<and> a < length (hookHeap w) \<and> hookHeap w ! a = hk"
  by (auto simp: deref_def split: option.splits if_splits)

lemma wf_world_Copy:
  assumes "wf_world w" and "Copy w h = Inr (c, w')"
  shows "wf_world w'"
proof -
  obtain hk where hk: "deref w h = Some hk"
    using assms(2) by (auto simp: Copy_def split: option.splits)
  have us: "usable_hook w hk" by (rule wf_world_usable [OF assms(1) hk])
  note r = Copy_result [OF hk us]
  have w': "w' = w\<lparr>hookCounter := hookCounter w + 1,
            mutexes := mutexes w @ [False],
            hookArrays := hookArrays w @ [elems (hookArrays w) (InvokeOnError hk)],
            provArrays := provArrays w @ [elems (provArrays w) (Providers hk)],
            hookHeap := hookHeap w @
              [hk\<lparr>InvokeOnError :=
                    \<lparr>arr = Some (length (hookArrays w)), len = len (InvokeOnError hk),
                     cap = len (InvokeOnError hk)\<rparr>,
                  Id_h := hookCounter w + 1,
                  Providers :=
                    \<lparr>arr = Some (length (provArrays w)), len = len (Providers hk),
                     cap = len (Providers hk)\<rparr>,
                  lock := Some (length (mutexes w))\<rparr>]\<rparr>"
    using assms(2) r by simp
  have old: "list_all (usable_hook w') (hookHeap w)"
    unfolding list_all_iff
  proof
    fix x assume "x \<in> set (hookHeap w)"
    then have "usable_hook w x" using assms(1) by (simp add: wf_world_def list_all_iff)
    then show "usable_hook w' x"
      by (rule usable_hook_mono) (simp_all add: w' nth_append)
  qed
  have l1: "length (elems (hookArrays w) (InvokeOnError hk)) = len (InvokeOnError hk)"
    and l2: "length (elems (provArrays w) (Providers hk)) = len (Providers hk)"
    using us by (simp_all add: usable_hook_def length_elems)
  have new: "usable_hook w' (last (hookHeap w'))"
    using l1 l2 by (simp add: w' usable_hook_def wf_slice_def)
  show ?thesis
    using assms(1) old new
    by (simp add: wf_world_def w')
qed

lemma wf_world_set_hook:
  assumes "wf_world w" and "deref w h = Some hk" and "Id_h hk' = Id_h hk"
    and "usable_hook w' hk'"
    and "hookCounter w' = hookCounter w"
    and "hookHeap w' = hookHeap w"
    and "\<And>x. usable_hook w x \<Longrightarrow> usable_hook w' x"
  shows "wf_world (set_hook w' h hk')"
proof -
  obtain a where a: "h = Some a" "a < length (hookHeap w)" "hookHeap w ! a = hk"
    using deref_Some [OF assms(2)] by blast
  have u: "usable_hook (set_hook w' h hk') = usable_hook w'"
    by (rule ext) (simp add: usable_hook_def set_hook_def a cong: option.case_cong)
  have "list_all (usable_hook w') (hookHeap w)"
    using assms(1,7) by (auto simp: wf_world_def list_all_iff)
  then have "list_all (usable_hook w') ((hookHeap w)[a := hk'])"
    using assms(4) by (auto simp: list_all_iff dest!: set_update_subset_insert [THEN subsetD])
  then show ?thesis
    using assms(1,3,5,6) a
    unfolding wf_world_def u by (simp add: set_hook_def map_Id_update)
qed

lemma wf_world_OnError:
  assumes "wf_world w" and "OnError gc w h e = Inr (r, w')"
  shows "wf_world w'"
proof -
  obtain hk where hk: "deref w h = Some hk"
    using assms(2) by (auto simp: OnError_def split: option.splits)
  have us: "usable_hook w hk" by (rule wf_world_usable [OF assms(1) hk])
  show ?thesis
  proof (cases e)
    case None
    then have w': "w' = set_hook w h (hk\<lparr>InvokeOnError := nil_slice\<rparr>)"
      using assms(2) OnError_nil_result [OF hk us, of gc] by auto
    show ?thesis
      unfolding w' using assms(1) hk
    proof (rule wf_world_set_hook)
      show "usable_hook w (hk\<lparr>InvokeOnError := nil_slice\<rparr>)"
        using us by (simp add: usable_hook_def wf_nil_slice)
    qed simp_all
  next
    case (Some t)
    obtain s ha where ap: "append_slice gc (hookArrays w) (InvokeOnError hk) (Some t) = (s, ha)"
      by (cases "append_slice gc (hookArrays w) (InvokeOnError hk) (Some t)")
    have w': "w' = set_hook (w\<lparr>hookArrays := ha\<rparr>) h (hk\<lparr>InvokeOnError := s\<rparr>)"
      using assms(2) OnError_Some_result [OF hk us ap] Some by auto
    have mono: "usable_hook (w\<lparr>hookArrays := ha\<rparr>) x" if "usable_hook w x" for x
      using that
      by (rule usable_hook_mono)
         (simp_all add: append_slice_length [OF ap] append_slice_lengths [OF ap])
    show ?thesis
      unfolding w' using assms(1) hk
    proof (rule wf_world_set_hook)
      have "wf_slice ha s"
        using us ap by (auto simp: usable_hook_def intro: append_slice_wf)
      then show "usable_hook (w\<lparr>hookArrays := ha\<rparr>) (hk\<lparr>InvokeOnError := s\<rparr>)"
        using mono [OF us] by (simp add: usable_hook_def)
    qed (simp_all add: mono)
  qed
qed

lemma wf_world_SetErrorCombiner:
  assumes "wf_world w" and "SetErrorCombiner w h f = Inr (r, w')"
  shows "wf_world w'"
proof -
  obtain hk where hk: "deref w h = Some hk"
    using assms(2) by (auto simp: SetErrorCombiner_def split: option.splits)
  have us: "usable_hook w hk" by (rule wf_world_usable [OF assms(1) hk])
  have w': "w' = set_hook w h (hk\<lparr>ErrorCombiner := f\<rparr>)"
    using assms(2) SetErrorCombiner_result [OF hk us, of f] by auto
  show ?thesis
    unfolding w' using assms(1) hk
  proof (rule wf_world_set_hook)
    show "usable_hook w (hk\<lparr>ErrorCombiner := f\<rparr>)"
      using us by (simp add: usable_hook_def)
  qed simp_all
qed

lemma wf_world_ContinuePastError:
  assumes "wf_world w" and "ContinuePastError w h b = Inr (r, w')"
  shows "wf_world w'"
proof -
  obtain hk where hk: "deref w h = Some hk"
    using assms(2) by (auto simp: ContinuePastError_def split: option.splits)
  have us: "usable_hook w hk" by (rule wf_world_usable [OF assms(1) hk])
  have w': "w' = set_hook w h (hk\<lparr>ContinuePast := b\<rparr>)"
    using assms(2) ContinuePastError_result [OF hk us, of b] by auto
  show ?thesis
    unfolding w' using assms(1) hk
  proof (rule wf_world_set_hook)
    show "usable_hook w (hk\<lparr>ContinuePast := b\<rparr>)"
      using us by (simp add: usable_hook_def)
  qed simp_all
qed

lemma wf_world_append_provider:
  assumes "wf_world w" and "append_provider gc w h v = Inr w'"
  shows "wf_world w'"
proof -
  obtain hk where hk: "deref w h = Some hk"
    using assms(2) by (auto simp: append_provider_def split: option.splits)
  have us: "usable_hook w hk" by (rule wf_world_usable [OF assms(1) hk])
  obtain s pa where ap: "append_slice gc (provArrays w) (Providers hk) v = (s, pa)"
    by (cases "append_slice gc (provArrays w) (Providers hk) v")
  have w': "w' = set_hook (w\<lparr>provArrays := pa\<rparr>) h (hk\<lparr>Providers := s\<rparr>)"
    using assms(2) hk ap by (simp add: append_provider_def)
  have mono: "usable_hook (w\<lparr>provArrays := pa\<rparr>) x" if "usable_hook w x" for x
    using that
    by (rule usable_hook_mono)
       (simp_all add: append_slice_length [OF ap] append_slice_lengths [OF ap])
  show ?thesis
    unfolding w' using assms(1) hk
  proof (rule wf_world_set_hook)
    have "wf_slice pa s"
      using us ap by (auto simp: usable_hook_def intro: append_slice_wf)
    then show "usable_hook (w\<lparr>provArrays := pa\<rparr>) (hk\<lparr>Providers := s\<rparr>)"
      using mono [OF us] by (simp add: usable_hook_def)
  qed (simp_all add: mono)
qed

lemma wf_world_apply_op:
  "wf_world w \<Longrightarrow> apply_op gc w x = Inr w' \<Longrightarrow> wf_world w'"
proof (cases x)
  case (NewHookOp n order)
  assume "wf_world w" "apply_op gc w x = Inr w'"
  then show ?thesis using NewHookOp wf_world_NewHook [of w n order] by auto
next
  case (CopyOp h)
  assume "wf_world w" "apply_op gc w x = Inr w'"
  then show ?thesis using CopyOp
    by (cases "Copy w h") (auto dest: wf_world_Copy)
next
  case (OnErrorOp h e)
  assume "wf_world w" "apply_op gc w x = Inr w'"
  then show ?thesis using OnErrorOp
    by (cases "OnError gc w h e") (auto dest: wf_world_OnError)
next
  case (SetErrorCombinerOp h f)
  assume "wf_world w" "apply_op gc w x = Inr w'"
  then show ?thesis using SetErrorCombinerOp
    by (cases "SetErrorCombiner w h f") (auto dest: wf_world_SetErrorCombiner)
next
  case (ContinuePastErrorOp h b)
  assume "wf_world w" "apply_op gc w x = Inr w'"
  then show ?thesis using ContinuePastErrorOp
    by (cases "ContinuePastError w h b") (auto dest: wf_world_ContinuePastError)
next
  case (AppendProviderOp h v)
  assume "wf_world w" "apply_op gc w x = Inr w'"
  then show ?thesis using AppendProviderOp
    by (auto dest: wf_world_append_provider)
qed

lemma wf_world_run_ops:
  "wf_world w \<Longrightarrow> run_ops gc w xs = Inr w' \<Longrightarrow> wf_world w'"
proof (induction xs arbitrary: w)
  case Nil
  then show ?case by simp
next
  case (Cons x xs)
  then show ?case
    by (cases "apply_op gc w x") (auto dest: wf_world_apply_op)
qed

section \<open>Identifiers\<close>

text \<open>
  The hooks only become more, and the identifiers \<open>1, 2, 3, ...\<close> taken as 32-bit words
  differ from one another for \<open>2 ^ 32\<close> hooks and increase, read as signed numbers, for
  \<open>2 ^ 31 - 1\<close>.
\<close>

lemma run_many:
  "\<exists>w'. run_ops gc w (replicate n (NewHookOp nm ord)) = Inr w'
        \<and> length (hookHeap w') = length (hookHeap w) + n"
proof (induction n arbitrary: w)
  case 0
  then show ?case by simp
next
  case (Suc n)
  obtain w' where "run_ops gc (snd (NewHook w nm ord)) (replicate n (NewHookOp nm ord)) = Inr w'"
    and "length (hookHeap w') = length (hookHeap (snd (NewHook w nm ord))) + n"
    using Suc.IH by blast
  then show ?case by (simp add: NewHook_result)
qed

lemma length_heap_apply_op:
  assumes "wf_world w" and "apply_op gc w x = Inr w'"
  shows "length (hookHeap w) \<le> length (hookHeap w')"
proof (cases x)
  case (NewHookOp n order)
  then show ?thesis using assms(2) by (auto simp: NewHook_result)
next
  case (CopyOp h)
  then obtain c where c: "Copy w h = Inr (c, w')"
    using assms(2) by (cases "Copy w h") auto
  then obtain hk where hk: "deref w h = Some hk"
    by (auto simp: Copy_def split: option.splits)
  show ?thesis
    using c Copy_result [OF hk wf_world_usable [OF assms(1) hk]] by auto
next
  case (OnErrorOp h e)
  then obtain r where c: "OnError gc w h e = Inr (r, w')"
    using assms(2) by (cases "OnError gc w h e") auto
  then obtain hk where hk: "deref w h = Some hk"
    by (auto simp: OnError_def split: option.splits)
  obtain s ha where ap: "append_slice gc (hookArrays w) (InvokeOnError hk) e = (s, ha)"
    by (cases "append_slice gc (hookArrays w) (InvokeOnError hk) e")
  show ?thesis
  proof (cases e)
    case None
    then show ?thesis
      using c OnError_nil_result [OF hk wf_world_usable [OF assms(1) hk], of gc]
      by (auto simp: set_hook_def split: option.splits)
  next
    case (Some t)
    then show ?thesis
      using c ap OnError_Some_result [OF hk wf_world_usable [OF assms(1) hk], of gc t s ha]
      by (auto simp: set_hook_def split: option.splits)
  qed
next
  case (SetErrorCombinerOp h f)
  then obtain r where c: "SetErrorCombiner w h f = Inr (r, w')"
    using assms(2) by (cases "SetErrorCombiner w h f") auto
  then obtain hk where hk: "deref w h = Some hk"
    by (auto simp: SetErrorCombiner_def split: option.splits)
  show ?thesis
    using c SetErrorCombiner_result [OF hk wf_world_usable [OF assms(1) hk], of f]
    by (auto simp: set_hook_def split: option.splits)
next
  case (ContinuePastErrorOp h b)
  then obtain r where c: "ContinuePastError w h b = Inr (r, w')"
    using assms(2) by (cases "ContinuePastError w h b") auto
  then obtain hk where hk: "deref w h = Some hk"
    by (auto simp: ContinuePastError_def split: option.splits)
  show ?thesis
    using c ContinuePastError_result [OF hk wf_world_usable [OF assms(1) hk], of b]
    by (auto simp: set_hook_def split: option.splits)
next
  case (AppendProviderOp h v)
  then show ?thesis
    using assms(2)
    by (auto simp: append_provider_def set_hook_def Let_def split: option.splits prod.splits)
qed

lemma length_heap_run_ops:
  "wf_world w \<Longrightarrow> run_ops gc w xs = Inr w' \<Longrightarrow> length (hookHeap w) \<le> length (hookHeap w')"
proof (induction xs arbitrary: w)
  case Nil
  then show ?case by simp
next
  case (Cons x xs)
  obtain w1 where w1: "apply_op gc w x = Inr w1" and r: "run_ops gc w1 xs = Inr w'"
    using Cons.prems(2) by (cases "apply_op gc w x") auto
  have "length (hookHeap w) \<le> length (hookHeap w1)"
    by (rule length_heap_apply_op [OF Cons.prems(1) w1])
  moreover have "length (hookHeap w1) \<le> length (hookHeap w')"
    by (rule Cons.IH [OF wf_world_apply_op [OF Cons.prems(1) w1] r])
  ultimately show ?case by simp
qed

lemma id_word_eq:
  assumes "i < j" and "j < 2 ^ 32"
  shows "(of_nat (Suc i) :: 32 word) \<noteq> of_nat (Suc j)"
proof
  assume "(of_nat (Suc i) :: 32 word) = of_nat (Suc j)"
  then have e: "Suc i mod 2 ^ 32 = Suc j mod 2 ^ 32"
    by (simp add: word_of_nat_eq_iff take_bit_eq_mod del: of_nat_Suc)
  have "Suc i mod 2 ^ 32 = Suc i" using assms by simp
  moreover have "Suc j mod 2 ^ 32 = (if Suc j = 2 ^ 32 then 0 else Suc j)"
    using assms by auto
  ultimately show False using e assms by (auto split: if_splits)
qed

lemma id_word_sless:
  assumes "i < j" and "j < 2 ^ 31 - 1"
  shows "(of_nat (Suc i) :: 32 word) <s of_nat (Suc j)"
proof -
  have "sint (of_nat (Suc i) :: 32 word) = int (Suc i)"
    unfolding signed_of_nat using assms
    by (simp add: signed_take_bit_int_eq_self del: of_nat_Suc)
  moreover have "sint (of_nat (Suc j) :: 32 word) = int (Suc j)"
    unfolding signed_of_nat using assms
    by (simp add: signed_take_bit_int_eq_self del: of_nat_Suc)
  ultimately show ?thesis using assms by (simp add: word_sless_alt del: of_nat_Suc)
qed

lemma wf_world_distinct:
  assumes "wf_world w" and "length (hookHeap w) \<le> 2 ^ 32"
  shows "distinct (map Id_h (hookHeap w))"
proof -
  have "i \<noteq> j \<Longrightarrow> i < length (hookHeap w) \<Longrightarrow> j < length (hookHeap w)
      \<Longrightarrow> Id_h (hookHeap w ! i) \<noteq> Id_h (hookHeap w ! j)" for i j
    using assms id_word_eq [of i j] id_word_eq [of j i]
    by (cases "i < j") (auto simp: wf_world_Id simp del: of_nat_Suc)
  then show ?thesis
    by (auto simp: distinct_conv_nth)
qed

lemma wf_world_sorted:
  assumes "wf_world w" and "length (hookHeap w) < 2 ^ 31"
  shows "sorted_wrt (<s) (map Id_h (hookHeap w))"
  using assms id_word_sless
  by (auto simp: sorted_wrt_iff_nth_less wf_world_Id simp del: of_nat_Suc)

section \<open>Appends to two hooks on separate arrays\<close>

text \<open>
  An append to one of two separate hooks extends the list of that hook, leaves the lists
  of the other alone and keeps the two separate, whether it writes into the backing
  array in place or moves the elements to a new one.
\<close>

lemma disjoint_arr_sym: "disjoint_arr s t \<Longrightarrow> disjoint_arr t s"
  by (auto simp: disjoint_arr_def)

lemma separate_sym: "separate w a b \<Longrightarrow> separate w b a"
  by (auto simp: separate_def dest: disjoint_arr_sym split: option.splits)

lemma separateD:
  assumes "separate w a b"
  obtains ha hb where "deref w a = Some ha" "deref w b = Some hb" "a \<noteq> b"
    "usable_hook w ha" "usable_hook w hb"
    "disjoint_arr (InvokeOnError ha) (InvokeOnError hb)"
    "disjoint_arr (Providers ha) (Providers hb)"
  using assms by (auto simp: separate_def split: option.splits)

lemma separateI:
  assumes "deref w a = Some ha" "deref w b = Some hb" "a \<noteq> b"
    "usable_hook w ha" "usable_hook w hb"
    "disjoint_arr (InvokeOnError ha) (InvokeOnError hb)"
    "disjoint_arr (Providers ha) (Providers hb)"
  shows "separate w a b"
  using assms by (simp add: separate_def)

lemma deref_set_hook_same:
  "deref w h = Some hk \<Longrightarrow> hookHeap w' = hookHeap w \<Longrightarrow> deref (set_hook w' h hk') h = Some hk'"
  by (auto simp: deref_def set_hook_def split: option.splits if_splits)

lemma deref_set_hook_other:
  "h \<noteq> g \<Longrightarrow> hookHeap w' = hookHeap w \<Longrightarrow> deref (set_hook w' h hk') g = deref w g"
  by (cases h; cases g) (simp_all add: deref_def set_hook_def)

lemma usable_hook_set_hook: "usable_hook (set_hook w h hk) = usable_hook w"
  by (rule ext) (simp add: usable_hook_def set_hook_def cong: option.case_cong split: option.splits)

lemma hookArrays_set_hook [simp]: "hookArrays (set_hook w h hk) = hookArrays w"
  by (simp add: set_hook_def split: option.splits)

lemma provArrays_set_hook [simp]: "provArrays (set_hook w h hk) = provArrays w"
  by (simp add: set_hook_def split: option.splits)

lemma separate_OnError:
  assumes "separate w x y"
  shows "\<exists>w'. OnError gc w x (Some t) = Inr (x, w') \<and> separate w' x y
           \<and> cascade w' x = cascade w x @ [Some t] \<and> cascade w' y = cascade w y
           \<and> providers w' x = providers w x \<and> providers w' y = providers w y"
proof -
  obtain hx hy where d: "deref w x = Some hx" "deref w y = Some hy" "x \<noteq> y"
    and u: "usable_hook w hx" "usable_hook w hy"
    and dj: "disjoint_arr (InvokeOnError hx) (InvokeOnError hy)"
      "disjoint_arr (Providers hx) (Providers hy)"
    using assms by (rule separateD)
  obtain s ha where ap: "append_slice gc (hookArrays w) (InvokeOnError hx) (Some t) = (s, ha)"
    by (cases "append_slice gc (hookArrays w) (InvokeOnError hx) (Some t)")
  let ?w' = "set_hook (w\<lparr>hookArrays := ha\<rparr>) x (hx\<lparr>InvokeOnError := s\<rparr>)"
  have r: "OnError gc w x (Some t) = Inr (x, ?w')"
    by (rule OnError_Some_result [OF d(1) u(1) ap])
  have wfx: "wf_slice (hookArrays w) (InvokeOnError hx)"
    and wfy: "wf_slice (hookArrays w) (InvokeOnError hy)"
    using u by (simp_all add: usable_hook_def)
  have dx: "deref ?w' x = Some (hx\<lparr>InvokeOnError := s\<rparr>)"
    using d(1) by (rule deref_set_hook_same) simp
  have dy: "deref ?w' y = Some hy"
    using d(2,3) by (simp add: deref_set_hook_other [where w = w])
  have mono: "usable_hook (w\<lparr>hookArrays := ha\<rparr>) k" if "usable_hook w k" for k
    using that
    by (rule usable_hook_mono)
       (simp_all add: append_slice_length [OF ap] append_slice_lengths [OF ap])
  have "wf_slice ha s" by (rule append_slice_wf [OF wfx ap])
  then have ux: "usable_hook ?w' (hx\<lparr>InvokeOnError := s\<rparr>)"
    using mono [OF u(1)] by (simp add: usable_hook_set_hook) (simp add: usable_hook_def)
  have uy: "usable_hook ?w' hy"
    using mono [OF u(2)] by (simp add: usable_hook_set_hook)
  have same: "ha ! p = hookArrays w ! p" if "arr (InvokeOnError hy) = Some p" for p
  proof (rule append_slice_others [OF ap])
    show "p < length (hookArrays w)" using wfy that by (simp add: wf_slice_def)
    show "arr (InvokeOnError hx) \<noteq> Some p" using dj(1) that by (auto simp: disjoint_arr_def)
  qed
  have ey: "elems ha (InvokeOnError hy) = elems (hookArrays w) (InvokeOnError hy)"
    by (rule elems_same [OF wfy append_slice_length [OF ap] same])
  have dj': "disjoint_arr s (InvokeOnError hy)"
    using append_slice_arr [OF ap] dj(1) wfy
    by (auto simp: disjoint_arr_def wf_slice_def split: option.splits)
  have sep: "separate ?w' x y"
    using dx dy d(3) ux uy
  proof (rule separateI)
    show "disjoint_arr (InvokeOnError (hx\<lparr>InvokeOnError := s\<rparr>)) (InvokeOnError hy)"
      using dj' by simp
    show "disjoint_arr (Providers (hx\<lparr>InvokeOnError := s\<rparr>)) (Providers hy)"
      using dj(2) by simp
  qed
  have "cascade ?w' x = cascade w x @ [Some t]"
    using append_slice_elems [OF wfx ap] by (simp add: cascade_def dx d(1))
  moreover have "cascade ?w' y = cascade w y"
    using ey by (simp add: cascade_def dy d(2))
  moreover have "providers ?w' x = providers w x"
    by (simp add: providers_def dx d(1))
  moreover have "providers ?w' y = providers w y"
    by (simp add: providers_def dy d(2))
  ultimately show ?thesis using r sep by blast
qed

lemma separate_append_provider:
  assumes "separate w x y"
  shows "\<exists>w'. append_provider gc w x v = Inr w' \<and> separate w' x y
           \<and> providers w' x = providers w x @ [v] \<and> providers w' y = providers w y
           \<and> cascade w' x = cascade w x \<and> cascade w' y = cascade w y"
proof -
  obtain hx hy where d: "deref w x = Some hx" "deref w y = Some hy" "x \<noteq> y"
    and u: "usable_hook w hx" "usable_hook w hy"
    and dj: "disjoint_arr (InvokeOnError hx) (InvokeOnError hy)"
      "disjoint_arr (Providers hx) (Providers hy)"
    using assms by (rule separateD)
  obtain s pa where ap: "append_slice gc (provArrays w) (Providers hx) v = (s, pa)"
    by (cases "append_slice gc (provArrays w) (Providers hx) v")
  let ?w' = "set_hook (w\<lparr>provArrays := pa\<rparr>) x (hx\<lparr>Providers := s\<rparr>)"
  have r: "append_provider gc w x v = Inr ?w'"
    using d(1) ap by (simp add: append_provider_def)
  have wfx: "wf_slice (provArrays w) (Providers hx)"
    and wfy: "wf_slice (provArrays w) (Providers hy)"
    using u by (simp_all add: usable_hook_def)
  have dx: "deref ?w' x = Some (hx\<lparr>Providers := s\<rparr>)"
    using d(1) by (rule deref_set_hook_same) simp
  have dy: "deref ?w' y = Some hy"
    using d(2,3) by (simp add: deref_set_hook_other [where w = w])
  have mono: "usable_hook (w\<lparr>provArrays := pa\<rparr>) k" if "usable_hook w k" for k
    using that
    by (rule usable_hook_mono)
       (simp_all add: append_slice_length [OF ap] append_slice_lengths [OF ap])
  have "wf_slice pa s" by (rule append_slice_wf [OF wfx ap])
  then have ux: "usable_hook ?w' (hx\<lparr>Providers := s\<rparr>)"
    using mono [OF u(1)] by (simp add: usable_hook_set_hook) (simp add: usable_hook_def)
  have uy: "usable_hook ?w' hy"
    using mono [OF u(2)] by (simp add: usable_hook_set_hook)
  have same: "pa ! p = provArrays w ! p" if "arr (Providers hy) = Some p" for p
  proof (rule append_slice_others [OF ap])
    show "p < length (provArrays w)" using wfy that by (simp add: wf_slice_def)
    show "arr (Providers hx) \<noteq> Some p" using dj(2) that by (auto simp: disjoint_arr_def)
  qed
  have ey: "elems pa (Providers hy) = elems (provArrays w) (Providers hy)"
    by (rule elems_same [OF wfy append_slice_length [OF ap] same])
  have dj': "disjoint_arr s (Providers hy)"
    using append_slice_arr [OF ap] dj(2) wfy
    by (auto simp: disjoint_arr_def wf_slice_def split: option.splits)
  have sep: "separate ?w' x y"
    using dx dy d(3) ux uy
  proof (rule separateI)
    show "disjoint_arr (InvokeOnError (hx\<lparr>Providers := s\<rparr>)) (InvokeOnError hy)"
      using dj(1) by simp
    show "disjoint_arr (Providers (hx\<lparr>Providers := s\<rparr>)) (Providers hy)"
      using dj' by simp
  qed
  have "providers ?w' x = providers w x @ [v]"
    using append_slice_elems [OF wfx ap] by (simp add: providers_def dx d(1))
  moreover have "providers ?w' y = providers w y"
    using ey by (simp add: providers_def dy d(2))
  moreover have "cascade ?w' x = cascade w x"
    by (simp add: cascade_def dx d(1))
  moreover have "cascade ?w' y = cascade w y"
    by (simp add: cascade_def dy d(2))
  ultimately show ?thesis using r sep by blast
qed

lemma separate_run:
  assumes "separate w a b" and "list_all (appends_to a b) ys"
  shows "\<exists>w'. run_ops gc w ys = Inr w' \<and> separate w' a b
           \<and> cascade w' a = cascade w a @ cascade_added a ys
           \<and> cascade w' b = cascade w b @ cascade_added b ys
           \<and> providers w' a = providers w a @ providers_added a ys
           \<and> providers w' b = providers w b @ providers_added b ys"
  using assms
proof (induction ys arbitrary: w)
  case Nil
  then show ?case by simp
next
  case (Cons x ys)
  have ab: "a \<noteq> b" using Cons.prems(1) by (simp add: separate_def)
  have rest: "list_all (appends_to a b) ys" and x: "appends_to a b x"
    using Cons.prems(2) by simp_all
  have "\<exists>w1. apply_op gc w x = Inr w1 \<and> separate w1 a b
           \<and> cascade w1 a = cascade w a @ cascade_added a [x]
           \<and> cascade w1 b = cascade w b @ cascade_added b [x]
           \<and> providers w1 a = providers w a @ providers_added a [x]
           \<and> providers w1 b = providers w b @ providers_added b [x]"
  proof (cases x)
    case (OnErrorOp h e)
    then obtain t where e: "e = Some t" and h: "h = a \<or> h = b"
      using x by auto
    show ?thesis
    proof (cases "h = a")
      case True
      obtain w1 where "OnError gc w a (Some t) = Inr (a, w1)" "separate w1 a b"
        "cascade w1 a = cascade w a @ [Some t]" "cascade w1 b = cascade w b"
        "providers w1 a = providers w a" "providers w1 b = providers w b"
        using separate_OnError [OF Cons.prems(1), of gc t] by blast
      then show ?thesis using OnErrorOp e True ab by simp
    next
      case False
      then have hb: "h = b" using h by simp
      obtain w1 where "OnError gc w b (Some t) = Inr (b, w1)" "separate w1 b a"
        "cascade w1 b = cascade w b @ [Some t]" "cascade w1 a = cascade w a"
        "providers w1 b = providers w b" "providers w1 a = providers w a"
        using separate_OnError [OF separate_sym [OF Cons.prems(1)], of gc t] by blast
      then show ?thesis using OnErrorOp e hb ab by (simp add: separate_sym)
    qed
  next
    case (AppendProviderOp h v)
    then have h: "h = a \<or> h = b" using x by simp
    show ?thesis
    proof (cases "h = a")
      case True
      obtain w1 where "append_provider gc w a v = Inr w1" "separate w1 a b"
        "providers w1 a = providers w a @ [v]" "providers w1 b = providers w b"
        "cascade w1 a = cascade w a" "cascade w1 b = cascade w b"
        using separate_append_provider [OF Cons.prems(1), of gc v] by blast
      then show ?thesis using AppendProviderOp True ab by simp
    next
      case False
      then have hb: "h = b" using h by simp
      obtain w1 where "append_provider gc w b v = Inr w1" "separate w1 b a"
        "providers w1 b = providers w b @ [v]" "providers w1 a = providers w a"
        "cascade w1 b = cascade w b" "cascade w1 a = cascade w a"
        using separate_append_provider [OF separate_sym [OF Cons.prems(1)], of gc v] by blast
      then show ?thesis using AppendProviderOp hb ab by (simp add: separate_sym)
    qed
  qed (use x in simp_all)
  then obtain w1 where s1: "apply_op gc w x = Inr w1" "separate w1 a b"
    and c1: "cascade w1 a = cascade w a @ cascade_added a [x]"
      "cascade w1 b = cascade w b @ cascade_added b [x]"
      "providers w1 a = providers w a @ providers_added a [x]"
      "providers w1 b = providers w b @ providers_added b [x]"
    by blast
  obtain w' where s2: "run_ops gc w1 ys = Inr w'" "separate w' a b"
    and c2: "cascade w' a = cascade w1 a @ cascade_added a ys"
      "cascade w' b = cascade w1 b @ cascade_added b ys"
      "providers w' a = providers w1 a @ providers_added a ys"
      "providers w' b = providers w1 b @ providers_added b ys"
    using Cons.IH [OF s1(2) rest] by blast
  have split_c: "cascade_added k (x # ys) = cascade_added k [x] @ cascade_added k ys" for k
    by (cases x) simp_all
  have split_p: "providers_added k (x # ys) = providers_added k [x] @ providers_added k ys" for k
    by (cases x) simp_all
  show ?case
    using s1 s2 c1 c2 by (simp add: split_c split_p)
qed

lemma Copy_separate:
  assumes "deref w h = Some hk" and "usable_hook w hk" and "Copy w h = Inr (c, w1)"
  shows "separate w1 h c"
proof -
  obtain a where a: "h = Some a" "a < length (hookHeap w)" "hookHeap w ! a = hk"
    using deref_Some [OF assms(1)] by blast
  let ?hc = "hk\<lparr>InvokeOnError :=
                    \<lparr>arr = Some (length (hookArrays w)), len = len (InvokeOnError hk),
                     cap = len (InvokeOnError hk)\<rparr>,
                  Id_h := hookCounter w + 1,
                  Providers :=
                    \<lparr>arr = Some (length (provArrays w)), len = len (Providers hk),
                     cap = len (Providers hk)\<rparr>,
                  lock := Some (length (mutexes w))\<rparr>"
  have c: "c = Some (length (hookHeap w))"
    and w1: "w1 = w\<lparr>hookCounter := hookCounter w + 1,
            mutexes := mutexes w @ [False],
            hookArrays := hookArrays w @ [elems (hookArrays w) (InvokeOnError hk)],
            provArrays := provArrays w @ [elems (provArrays w) (Providers hk)],
            hookHeap := hookHeap w @ [?hc]\<rparr>"
    using assms(3) Copy_result [OF assms(1,2)] by simp_all
  have l1: "length (elems (hookArrays w) (InvokeOnError hk)) = len (InvokeOnError hk)"
    and l2: "length (elems (provArrays w) (Providers hk)) = len (Providers hk)"
    using assms(2) by (simp_all add: usable_hook_def length_elems)
  have wf1: "wf_slice (hookArrays w) (InvokeOnError hk)"
    and wf2: "wf_slice (provArrays w) (Providers hk)"
    using assms(2) by (simp_all add: usable_hook_def)
  show ?thesis
  proof (rule separateI)
    show "deref w1 h = Some hk" using a by (simp add: w1 deref_def nth_append)
    show "deref w1 c = Some ?hc" by (simp add: w1 c deref_def)
    show "h \<noteq> c" using a c by simp
    show "usable_hook w1 hk"
      using assms(2) by (rule usable_hook_mono) (simp_all add: w1 nth_append)
    show "usable_hook w1 ?hc"
      using l1 l2 by (simp add: w1 usable_hook_def wf_slice_def)
    show "disjoint_arr (InvokeOnError hk) (InvokeOnError ?hc)"
      using wf1 by (auto simp: disjoint_arr_def wf_slice_def split: option.splits)
    show "disjoint_arr (Providers hk) (Providers ?hc)"
      using wf2 by (auto simp: disjoint_arr_def wf_slice_def split: option.splits)
  qed
qed

lemma elems_append_arrays: "wf_slice as s \<Longrightarrow> elems (as @ bs) s = elems as s"
  by (auto simp: elems_def wf_slice_def nth_append split: option.splits)


lemma id_word_since:
  assumes "a < n" and "n - a < 2 ^ 32"
  shows "(of_nat (Suc a) :: 32 word) \<noteq> of_nat (Suc n)"
proof
  assume "(of_nat (Suc a) :: 32 word) = of_nat (Suc n)"
  then have "Suc a mod 2 ^ 32 = Suc n mod 2 ^ 32"
    by (simp add: word_of_nat_eq_iff take_bit_eq_mod del: of_nat_Suc)
  then have "(2 :: nat) ^ 32 dvd Suc n - Suc a"
    using assms(1) by (metis mod_eq_dvd_iff_nat Suc_le_mono less_imp_le_nat)
  then have "(2 :: nat) ^ 32 dvd n - a" by simp
  then have "n - a = 0 \<or> 2 ^ 32 \<le> n - a"
    by (auto dest: dvd_imp_le)
  then show False using assms by simp
qed


lemma Copy_lists:
  assumes "deref w h = Some hk" and "usable_hook w hk" and "Copy w h = Inr (c, w1)"
  shows "\<exists>hc. deref w1 c = Some hc \<and> Id_h hc = hookCounter w + 1 \<and> deref w1 h = Some hk
           \<and> cascade w1 c = cascade w h \<and> providers w1 c = providers w h"
proof -
  obtain a where a: "h = Some a" "a < length (hookHeap w)" "hookHeap w ! a = hk"
    using deref_Some [OF assms(1)] by blast
  have l1: "length (elems (hookArrays w) (InvokeOnError hk)) = len (InvokeOnError hk)"
    and l2: "length (elems (provArrays w) (Providers hk)) = len (Providers hk)"
    using assms(2) by (simp_all add: usable_hook_def length_elems)
  show ?thesis
    using assms(3) unfolding Copy_result [OF assms(1,2)]
    using assms(1) a l1 l2
    by (auto simp: deref_def cascade_def providers_def nth_append elems_def [of "_ @ _"])
qed

section \<open>The dispatch loop\<close>

text \<open>
  The loop over the callbacks in closed form: which callbacks are invoked, what the
  accumulated error is in the end, and the App it leaves behind.
\<close>

lemma errors_of_append: "errors_of (xs @ ys) = errors_of xs @ errors_of ys"
  by (induction xs rule: errors_of.induct) simp_all

lemma length_invoke_all: "length (invoke_all invoke cs app) = length cs"
  by (induction cs arbitrary: app) simp_all

lemma map_fst_invoke_all: "map fst (invoke_all invoke cs app) = cs"
  by (induction cs arbitrary: app) simp_all


lemma upto_first_error_prefix:
  "upto_first_error xs = take (length (upto_first_error xs)) xs"
  by (induction xs rule: upto_first_error.induct) simp_all

lemma upto_first_error_none: "errors_of xs = [] \<Longrightarrow> upto_first_error xs = xs"
  by (induction xs rule: upto_first_error.induct) simp_all

lemma upto_first_error_last:
  "errors_of xs \<noteq> [] \<Longrightarrow>
     \<exists>c e. upto_first_error xs = butlast (upto_first_error xs) @ [(c, Some e)]
           \<and> errors_of (butlast (upto_first_error xs)) = []
           \<and> e = hd (errors_of xs)"
  by (induction xs rule: upto_first_error.induct) auto







section \<open>The cascade\<close>









section \<open>Evaluation of the concrete programs\<close>

lemmas eval_defs =
  package_init_def NewHook_def OnError_def ContinuePastError_def SetErrorCombiner_def Copy_def
  AddInt32_def new_Mutex_def world0_def deref_def Lock_def Unlock_def set_hook_def
  append_slice_def make_slice_def copy_slice_def nil_slice_def elems_def Let_def
  cascade_def providers_def usable_def usable_hook_def wf_slice_def double_cap_def
  append_provider_def


lemma init_ops_run: "run_ops double_cap world0 init_ops = Inr init_world"
  by (simp add: init_ops_def init_world_def eval_defs)


lemmas app_defs =
  On_def empty_app_def two_orders_world_def two_orders_app_def succeed_def
  cascading_world_def cascading_app_def fail_with_own_def keep_second_def
  second_fails_def three_app_def accumulate_def ReverseOrder_def ForwardOrder_def





section \<open>The claims\<close>

text \<open>
  Claim C2: exactly two ordering policies exist, Forward and Reverse, and they are
  distinct: a hook created by \<open>NewHook(name, ReverseOrder)\<close> carries a different
  ordering-policy value than one created by \<open>NewHook(name, ForwardOrder)\<close>.

  The code does not do this. The constant \<open>ReverseOrder\<close> is declared as the string
  "forward", the value of \<open>ForwardOrder\<close>, although its comment says that the items of
  such a hook are invoked opposite to the order of registration. For every state and
  every name, the hook \<open>NewHook\<close> returns for \<open>ReverseOrder\<close> and the one it returns for
  \<open>ForwardOrder\<close> carry the same \<open>Order\<close>, the string "forward".
\<close>

theorem ReverseOrder_is_ForwardOrder:
  "map_option Order (deref (snd (NewHook w name ReverseOrder)) (fst (NewHook w name ReverseOrder)))
     = Some ''forward''
   \<and> map_option Order (deref (snd (NewHook w name ForwardOrder)) (fst (NewHook w name ForwardOrder)))
     = Some ''forward''"
  by (simp add: NewHook_result deref_def ReverseOrder_def ForwardOrder_def)

text \<open>
  Claim C4: at initialisation three predefined hooks exist. \<open>Start\<close> has Forward order
  and the cascade list \<open>[Stop]\<close>; \<open>Stop\<close> has Reverse order, the cascade list
  \<open>[Shutdown]\<close> and continue-past-error true; \<open>Shutdown\<close> has Reverse order and an
  empty cascade list; \<open>Start\<close> and \<open>Shutdown\<close> have continue-past-error false, and none
  of the three has a combiner.

  The code does not do this for the orders. The three hooks exist, and their cascade
  lists, flags and combiners are as the claim says, whatever the growth rule of
  \<open>append\<close>. But \<open>Stop\<close> and \<open>Shutdown\<close>, which the comments of hook.go call
  reverse-order hooks, are made with \<open>ReverseOrder\<close>, which is the string "forward":
  all three hooks carry the order "forward", and the order of \<open>Stop\<close> and of
  \<open>Shutdown\<close> is the order of \<open>Start\<close>.
\<close>

theorem predefined_hooks:
  "case package_init gc of
     Inl f \<Rightarrow> False
   | Inr (start, stop, shutdown, w) \<Rightarrow>
       distinct [start, stop, shutdown] \<and>
       (case (deref w start, deref w stop, deref w shutdown) of
          (Some st, Some sp, Some sd) \<Rightarrow>
            Name st = ''start'' \<and> Order st = ''forward'' \<and> cascade w start = [stop]
            \<and> \<not> ContinuePast st \<and> ErrorCombiner st = None
            \<and> Name sp = ''stop'' \<and> Order sp = ''forward'' \<and> cascade w stop = [shutdown]
            \<and> ContinuePast sp \<and> ErrorCombiner sp = None
            \<and> Name sd = ''shutdown'' \<and> Order sd = ''forward'' \<and> cascade w shutdown = []
            \<and> \<not> ContinuePast sd \<and> ErrorCombiner sd = None
            \<and> Order sp = Order st \<and> Order sd = Order st
        | _ \<Rightarrow> False)"
  by (simp add: package_init_def NewHook_def OnError_def ContinuePastError_def
      AddInt32_def new_Mutex_def world0_def deref_def Lock_def Unlock_def set_hook_def
      append_slice_def nil_slice_def elems_def Let_def cascade_def
      ReverseOrder_def ForwardOrder_def)


text \<open>
  Claim C7: for every hook \<open>h\<close>, \<open>h.OnError(nil)\<close> leaves the cascade list of \<open>h\<close>
  empty whatever it held before, and \<open>h.OnError(e)\<close> with a non-nil \<open>e\<close> appends \<open>e\<close> at
  the end of the cascade list and leaves the entries before it in place; both calls
  return \<open>h\<close> itself. A hook is a pointer to a \<open>Hook\<close> of the store whose mutex is free;
  on such a hook neither call faults.
\<close>

theorem OnError_cascade:
  assumes "usable w h"
  shows "(case OnError gc w h None of
            Inl f \<Rightarrow> False
          | Inr (r, w') \<Rightarrow> r = h \<and> cascade w' h = [])
       \<and> (case OnError gc w h (Some t) of
            Inl f \<Rightarrow> False
          | Inr (r, w') \<Rightarrow> r = h \<and> cascade w' h = cascade w h @ [Some t])"
proof -
  obtain hk where hk: "deref w h = Some hk" and us: "usable_hook w hk"
    using assms by (auto simp: usable_def split: option.splits)
  obtain a where a: "h = Some a" "a < length (hookHeap w)"
    using deref_Some [OF hk] by blast
  obtain s ha where ap: "append_slice gc (hookArrays w) (InvokeOnError hk) (Some t) = (s, ha)"
    by (cases "append_slice gc (hookArrays w) (InvokeOnError hk) (Some t)")
  have wf: "wf_slice (hookArrays w) (InvokeOnError hk)"
    using us by (simp add: usable_hook_def)
  have "cascade (set_hook w h (hk\<lparr>InvokeOnError := nil_slice\<rparr>)) h = []"
    using a by (simp add: cascade_def deref_def set_hook_def elems_nil_slice)
  moreover have "cascade (set_hook (w\<lparr>hookArrays := ha\<rparr>) h (hk\<lparr>InvokeOnError := s\<rparr>)) h
      = cascade w h @ [Some t]"
    using a hk append_slice_elems [OF wf ap]
    by (simp add: cascade_def deref_def set_hook_def)
  ultimately show ?thesis
    by (simp add: OnError_nil_result [OF hk us] OnError_Some_result [OF hk us ap])
qed

text \<open>
  The claim at the predefined \<open>Stop\<close> hook, whose cascade list is \<open>[Shutdown]\<close>: clearing
  empties it, and \<open>Stop.OnError(Start)\<close> makes it \<open>[Shutdown, Start]\<close>.
\<close>

theorem OnError_cascade_witness:
  "usable init_world (Some 1)
   \<and> cascade init_world (Some 1) = [Some 0]
   \<and> (case OnError double_cap init_world (Some 1) None of
         Inl f \<Rightarrow> False
       | Inr (r, w') \<Rightarrow> r = Some 1 \<and> cascade w' (Some 1) = [])
   \<and> (case OnError double_cap init_world (Some 1) (Some 2) of
         Inl f \<Rightarrow> False
       | Inr (r, w') \<Rightarrow> r = Some 1 \<and> cascade w' (Some 1) = cascade init_world (Some 1) @ [Some 2])"
proof -
  have u: "usable init_world (Some 1)"
    by (simp add: init_world_def eval_defs)
  have c: "cascade init_world (Some 1) = [Some 0]"
    by (simp add: init_world_def eval_defs)
  show ?thesis
    using u c OnError_cascade [OF u, of double_cap 2] by blast
qed

text \<open>
  Claim C10, amended: for every hook \<open>h\<close>, the hook \<open>h.Copy()\<close> returns has the
  \<open>Name\<close>, the ordering policy, the continue-past-error flag and the error combiner of
  \<open>h\<close> at the moment of the copy; the lock and the backing arrays of the cascade list and
  of the callback list are fresh, and the identifier is fresh, borne by no hook that
  exists, as long as fewer than \<open>2 ^ 32\<close> hooks have been created before.

  The identifier is the next value of the counter, and it is fresh in every state that a
  program reaches from the start of the process by calls of the functions of hook.go and
  appends to \<open>Providers\<close>, within the bound. The lock and the two arrays are objects that
  were not in the store before the call; the two lists show the elements of the lists of
  \<open>h\<close>; the copy is a new object and \<open>h\<close> is what it was.
\<close>

theorem Copy_fields:
  assumes "usable w h"
  shows "case Copy w h of
           Inl f \<Rightarrow> False
         | Inr (c, w') \<Rightarrow>
             (case (deref w h, deref w' c) of
                (Some hk, Some hc) \<Rightarrow>
                  Name hc = Name hk \<and> Order hc = Order hk
                  \<and> ContinuePast hc = ContinuePast hk \<and> ErrorCombiner hc = ErrorCombiner hk
                  \<and> Id_h hc = hookCounter w + 1
                  \<and> (run_ops gc world0 xs = Inr w \<and> length (hookHeap w) < 2 ^ 32
                        \<longrightarrow> Id_h hc \<notin> Id_h ` set (hookHeap w))
                  \<and> lock hc = Some (length (mutexes w))
                  \<and> arr (InvokeOnError hc) = Some (length (hookArrays w))
                  \<and> arr (Providers hc) = Some (length (provArrays w))
                  \<and> cascade w' c = cascade w h \<and> providers w' c = providers w h
                  \<and> deref w c = None \<and> deref w' h = Some hk
              | _ \<Rightarrow> False)"
proof -
  obtain hk where hk: "deref w h = Some hk" and us: "usable_hook w hk"
    using assms by (auto simp: usable_def split: option.splits)
  obtain a where a: "h = Some a" "a < length (hookHeap w)" "hookHeap w ! a = hk"
    using deref_Some [OF hk] by blast
  have l1: "length (elems (hookArrays w) (InvokeOnError hk)) = len (InvokeOnError hk)"
    and l2: "length (elems (provArrays w) (Providers hk)) = len (Providers hk)"
    using us by (simp_all add: usable_hook_def length_elems)
  have fresh: "hookCounter w + 1 \<notin> Id_h ` set (hookHeap w)"
    if r: "run_ops gc world0 xs = Inr w" and l: "length (hookHeap w) < 2 ^ 32"
  proof
    assume "hookCounter w + 1 \<in> Id_h ` set (hookHeap w)"
    then obtain i where i: "i < length (hookHeap w)" "Id_h (hookHeap w ! i) = hookCounter w + 1"
      by (auto simp: in_set_conv_nth)
    have wf: "wf_world w" by (rule wf_world_run_ops [OF wf_world0 r])
    have "Id_h (hookHeap w ! i) = of_nat (Suc i)" by (rule wf_world_Id [OF wf i(1)])
    moreover have "hookCounter w + 1 = of_nat (Suc (length (hookHeap w)))"
      using wf by (simp add: wf_world_def)
    ultimately show False
      using i(2) id_word_eq [OF i(1) l] by (simp del: of_nat_Suc)
  qed
  show ?thesis
    unfolding Copy_result [OF hk us]
    using hk a l1 l2 fresh
    by (simp add: deref_def cascade_def providers_def nth_append elems_def [of "_ @ _"])
qed


text \<open>
  The amended claim at the predefined \<open>Stop\<close> hook: the hooks have the identifiers 1,
  2 and 3, and the copy gets an identifier that none of them has.
\<close>

theorem Copy_fields_witness:
  "usable init_world (Some 1)
   \<and> run_ops double_cap world0 init_ops = Inr init_world
   \<and> length (hookHeap init_world) < 2 ^ 32
   \<and> map Id_h (hookHeap init_world) = [1, 2, 3]
   \<and> (case Copy init_world (Some 1) of
         Inl f \<Rightarrow> False
       | Inr (c, w') \<Rightarrow>
           (case (deref init_world (Some 1), deref w' c) of
              (Some hk, Some hc) \<Rightarrow>
                Name hc = Name hk \<and> Order hc = Order hk
                \<and> ContinuePast hc = ContinuePast hk \<and> ErrorCombiner hc = ErrorCombiner hk
                \<and> Id_h hc = hookCounter init_world + 1
                \<and> Id_h hc \<notin> Id_h ` set (hookHeap init_world)
                \<and> lock hc = Some (length (mutexes init_world))
                \<and> arr (InvokeOnError hc) = Some (length (hookArrays init_world))
                \<and> arr (Providers hc) = Some (length (provArrays init_world))
                \<and> cascade w' c = cascade init_world (Some 1)
                \<and> providers w' c = providers init_world (Some 1)
                \<and> deref init_world c = None \<and> deref w' (Some 1) = Some hk
            | _ \<Rightarrow> False))"
proof -
  have u: "usable init_world (Some 1)"
    by (simp add: init_world_def eval_defs)
  have l: "length (hookHeap init_world) < 2 ^ 32"
    by (simp add: init_world_def eval_defs)
  have i: "map Id_h (hookHeap init_world) = [1, 2, 3]"
    by (simp add: init_world_def eval_defs)
  note t = Copy_fields [OF u, of double_cap init_ops]
  have g: "case Copy init_world (Some 1) of
         Inl f \<Rightarrow> False
       | Inr (c, w') \<Rightarrow>
           (case (deref init_world (Some 1), deref w' c) of
              (Some hk, Some hc) \<Rightarrow>
                Name hc = Name hk \<and> Order hc = Order hk
                \<and> ContinuePast hc = ContinuePast hk \<and> ErrorCombiner hc = ErrorCombiner hk
                \<and> Id_h hc = hookCounter init_world + 1
                \<and> Id_h hc \<notin> Id_h ` set (hookHeap init_world)
                \<and> lock hc = Some (length (mutexes init_world))
                \<and> arr (InvokeOnError hc) = Some (length (hookArrays init_world))
                \<and> arr (Providers hc) = Some (length (provArrays init_world))
                \<and> cascade w' c = cascade init_world (Some 1)
                \<and> providers w' c = providers init_world (Some 1)
                \<and> deref init_world c = None \<and> deref w' (Some 1) = Some hk
            | _ \<Rightarrow> False)"
  proof (cases "Copy init_world (Some 1)")
    case (Inl f)
    then show ?thesis using t by simp
  next
    case (Inr p)
    obtain c w' where p: "p = (c, w')" by (cases p)
    show ?thesis
    proof (cases "deref init_world (Some 1)")
      case None
      then show ?thesis using t Inr p by simp
    next
      case (Some hk)
      show ?thesis
      proof (cases "deref w' c")
        case None
        then show ?thesis using t Inr p Some by simp
      next
        case (Some hc)
        then show ?thesis
          using t Inr p \<open>deref init_world (Some 1) = Some hk\<close> l init_ops_run
          by auto
      qed
    qed
  qed
  show ?thesis
    using u l i init_ops_run g by blast
qed


text \<open>
  The claim as it stands fails when the counter wraps around. After \<open>2 ^ 32 + 5\<close> hooks
  the counter is 5, and the copy of the sixth hook, whose identifier is 6, gets the
  identifier 6: the identifier of the copy is not fresh.
\<close>

theorem Copy_fields_counterexample:
  "case run_ops double_cap world0 (many_hooks (2 ^ 32 + 5)) of
     Inl f \<Rightarrow> False
   | Inr w \<Rightarrow>
       usable w (Some 5) \<and>
       (case Copy w (Some 5) of
          Inl f \<Rightarrow> False
        | Inr (c, w') \<Rightarrow>
            (case (deref w (Some 5), deref w' c) of
               (Some hk, Some hc) \<Rightarrow>
                 c \<noteq> Some 5 \<and> Id_h hc = Id_h hk \<and> Id_h hc \<in> Id_h ` set (hookHeap w)
             | _ \<Rightarrow> False))"
proof -
  obtain w where r: "run_ops double_cap world0 (many_hooks (2 ^ 32 + 5)) = Inr w"
    and l: "length (hookHeap w) = 2 ^ 32 + 5"
    using run_many [of double_cap world0 "2 ^ 32 + 5" "''h''" ForwardOrder]
    unfolding many_hooks_def by (auto simp: world0_def)
  have wf: "wf_world w" by (rule wf_world_run_ops [OF wf_world0 r])
  have c: "hookCounter w = 5"
    using wf l by (simp add: wf_world_def)
  have d: "Id_h (hookHeap w ! 5) = of_nat (Suc 5)"
    by (rule wf_world_Id [OF wf]) (simp add: l)
  have hk: "deref w (Some 5) = Some (hookHeap w ! 5)"
    using l by (simp add: deref_def)
  have us: "usable_hook w (hookHeap w ! 5)" by (rule wf_world_usable [OF wf hk])
  have u: "usable w (Some 5)" using hk us by (simp add: usable_def)
  have m: "Id_h (hookHeap w ! 5) \<in> Id_h ` set (hookHeap w)"
    using l by (intro imageI nth_mem) simp
  show ?thesis
    unfolding r using l c d u m
    by (simp add: Copy_result [OF hk us] deref_def nth_append)
qed

text \<open>
  Claim C8, amended: no function of hook.go changes the identifier of a hook that
  exists; the hooks ever produced, by \<open>NewHook\<close> or by \<open>Copy\<close>, carry pairwise distinct
  identifiers as long as at most \<open>2 ^ 32\<close> of them have been produced; and their
  identifiers increase in the order of creation, as the signed 32-bit numbers they are,
  as long as fewer than \<open>2 ^ 31\<close> have been produced. The hooks of a state are listed in
  the order of their creation.
\<close>

theorem hook_ids:
  assumes "run_ops gc world0 xs = Inr w" and "run_ops gc w ys = Inr w'"
  shows "(length (hookHeap w') \<le> 2 ^ 32 \<longrightarrow> distinct (map Id_h (hookHeap w')))
       \<and> (length (hookHeap w') < 2 ^ 31 \<longrightarrow> sorted_wrt (<s) (map Id_h (hookHeap w')))
       \<and> length (hookHeap w) \<le> length (hookHeap w')
       \<and> map Id_h (take (length (hookHeap w)) (hookHeap w')) = map Id_h (hookHeap w)"
proof -
  have w: "wf_world w" by (rule wf_world_run_ops [OF wf_world0 assms(1)])
  have w': "wf_world w'" by (rule wf_world_run_ops [OF w assms(2)])
  have le: "length (hookHeap w) \<le> length (hookHeap w')"
    by (rule length_heap_run_ops [OF w assms(2)])
  have "map Id_h (take (length (hookHeap w)) (hookHeap w')) = map Id_h (hookHeap w)"
    using le by (auto simp: list_eq_iff_nth_eq wf_world_Id [OF w] wf_world_Id [OF w'] simp del: of_nat_Suc)
  then show ?thesis
    using le wf_world_distinct [OF w'] wf_world_sorted [OF w'] by blast
qed

text \<open>
  The amended claim at the initialisation of the package followed by a copy of \<open>Stop\<close>
  and a new hook: the identifiers are 1 to 5.
\<close>

theorem hook_ids_witness:
  "run_ops double_cap world0 init_ops = Inr init_world
   \<and> (case run_ops double_cap init_world [CopyOp (Some 1), NewHookOp ''x'' ForwardOrder] of
         Inl f \<Rightarrow> False
       | Inr w' \<Rightarrow>
           map Id_h (hookHeap init_world) = [1, 2, 3]
           \<and> map Id_h (hookHeap w') = [1, 2, 3, 4, 5]
           \<and> distinct (map Id_h (hookHeap w'))
           \<and> sorted_wrt (<s) (map Id_h (hookHeap w'))
           \<and> length (hookHeap init_world) \<le> length (hookHeap w')
           \<and> map Id_h (take (length (hookHeap init_world)) (hookHeap w')) = map Id_h (hookHeap init_world))"
proof -
  define w' where "w' = (case run_ops double_cap init_world [CopyOp (Some 1), NewHookOp ''x'' ForwardOrder] of
         Inl f \<Rightarrow> world0 | Inr w' \<Rightarrow> w')"
  have r: "run_ops double_cap init_world [CopyOp (Some 1), NewHookOp ''x'' ForwardOrder] = Inr w'"
    by (simp add: w'_def init_world_def eval_defs)
  have i: "map Id_h (hookHeap init_world) = [1, 2, 3]"
    by (simp add: init_world_def eval_defs)
  have i': "map Id_h (hookHeap w') = [1, 2, 3, 4, 5]"
    by (simp add: w'_def init_world_def eval_defs)
  have l: "length (hookHeap w') \<le> 2 ^ 32" "length (hookHeap w') < 2 ^ 31"
    using arg_cong [OF i', of length] by simp_all
  show ?thesis
    unfolding r using hook_ids [OF init_ops_run r] l i i' init_ops_run by simp
qed

text \<open>
  The claim as it stands fails when the counter overflows. The hook created as number
  \<open>2 ^ 31\<close> gets the identifier \<open>- 2 ^ 31\<close>, which is less than the identifier
  \<open>2 ^ 31 - 1\<close> of the hook created before it; and the hook created as number
  \<open>2 ^ 32 + 1\<close> gets the identifier 1 of the first hook.
\<close>

theorem hook_ids_counterexample:
  "(case run_ops double_cap world0 (many_hooks (2 ^ 31)) of
      Inl f \<Rightarrow> False
    | Inr w \<Rightarrow> length (hookHeap w) = 2 ^ 31
        \<and> Id_h (hookHeap w ! (2 ^ 31 - 1)) <s Id_h (hookHeap w ! (2 ^ 31 - 2)))
   \<and> (case run_ops double_cap world0 (many_hooks (2 ^ 32 + 1)) of
      Inl f \<Rightarrow> False
    | Inr w \<Rightarrow> length (hookHeap w) = 2 ^ 32 + 1
        \<and> Id_h (hookHeap w ! (2 ^ 32)) = Id_h (hookHeap w ! 0))"
proof -
  obtain w where r: "run_ops double_cap world0 (many_hooks (2 ^ 31)) = Inr w"
    and l: "length (hookHeap w) = 2 ^ 31"
    using run_many [of double_cap world0 "2 ^ 31" "''h''" ForwardOrder]
    unfolding many_hooks_def by (auto simp: world0_def)
  have wf: "wf_world w" by (rule wf_world_run_ops [OF wf_world0 r])
  have a: "Id_h (hookHeap w ! (2 ^ 31 - 1)) = of_nat (Suc (2 ^ 31 - 1))"
    by (rule wf_world_Id [OF wf]) (simp add: l)
  have b: "Id_h (hookHeap w ! (2 ^ 31 - 2)) = of_nat (Suc (2 ^ 31 - 2))"
    by (rule wf_world_Id [OF wf]) (simp add: l)
  have first: "Id_h (hookHeap w ! (2 ^ 31 - 1)) <s Id_h (hookHeap w ! (2 ^ 31 - 2))"
    unfolding a b by (simp add: word_sless_alt)
  obtain v where r': "run_ops double_cap world0 (many_hooks (2 ^ 32 + 1)) = Inr v"
    and l': "length (hookHeap v) = 2 ^ 32 + 1"
    using run_many [of double_cap world0 "2 ^ 32 + 1" "''h''" ForwardOrder]
    unfolding many_hooks_def by (auto simp: world0_def)
  have wf': "wf_world v" by (rule wf_world_run_ops [OF wf_world0 r'])
  have c: "Id_h (hookHeap v ! (2 ^ 32)) = of_nat (Suc (2 ^ 32))"
    by (rule wf_world_Id [OF wf']) (simp add: l')
  have d: "Id_h (hookHeap v ! 0) = of_nat (Suc 0)"
    by (rule wf_world_Id [OF wf']) (simp add: l')
  have second: "Id_h (hookHeap v ! (2 ^ 32)) = Id_h (hookHeap v ! 0)"
    unfolding c d by simp
  show ?thesis
    unfolding r r' using l first l' second by simp
qed

text \<open>
  Claim C6, amended: for every name and order, \<open>NewHook(name, order)\<close> returns a hook
  whose cascade list and callback list are empty, whose continue-past-error flag is
  false and which has no error combiner; its identifier is fresh and unique among the
  identifiers of all hooks, as long as fewer than \<open>2 ^ 32\<close> hooks have been created
  before. The hook is a new object with the name and the order given.
\<close>

theorem NewHook_fresh:
  assumes "run_ops gc world0 xs = Inr w" and "length (hookHeap w) < 2 ^ 32"
  shows "case NewHook w name order of
           (h, w') \<Rightarrow>
             (case deref w' h of
                None \<Rightarrow> False
              | Some hk \<Rightarrow>
                  deref w h = None
                  \<and> Id_h hk \<notin> Id_h ` set (hookHeap w)
                  \<and> distinct (map Id_h (hookHeap w'))
                  \<and> Name hk = name \<and> Order hk = order
                  \<and> cascade w' h = [] \<and> providers w' h = []
                  \<and> \<not> ContinuePast hk \<and> ErrorCombiner hk = None)"
proof -
  have w: "wf_world w" by (rule wf_world_run_ops [OF wf_world0 assms(1)])
  have "wf_world (snd (NewHook w name order))" by (rule wf_world_NewHook [OF w])
  moreover have "length (hookHeap (snd (NewHook w name order))) \<le> 2 ^ 32"
    using assms(2) by (simp add: NewHook_result)
  ultimately have "distinct (map Id_h (hookHeap (snd (NewHook w name order))))"
    by (rule wf_world_distinct)
  then show ?thesis
    by (simp add: NewHook_result deref_def cascade_def providers_def elems_nil_slice)
qed

text \<open>The amended claim right after the initialisation of the package.\<close>

theorem NewHook_fresh_witness:
  "run_ops double_cap world0 init_ops = Inr init_world
   \<and> length (hookHeap init_world) < 2 ^ 32
   \<and> (case NewHook init_world ''migrate'' ForwardOrder of
         (h, w') \<Rightarrow>
           (case deref w' h of
              None \<Rightarrow> False
            | Some hk \<Rightarrow>
                deref init_world h = None
                \<and> Id_h hk \<notin> Id_h ` set (hookHeap init_world)
                \<and> distinct (map Id_h (hookHeap w'))
                \<and> Name hk = ''migrate'' \<and> Order hk = ForwardOrder
                \<and> cascade w' h = [] \<and> providers w' h = []
                \<and> \<not> ContinuePast hk \<and> ErrorCombiner hk = None))"
proof -
  have l: "length (hookHeap init_world) < 2 ^ 32"
    by (simp add: init_world_def eval_defs)
  show ?thesis
    using init_ops_run l NewHook_fresh [OF init_ops_run l, of "''migrate''" ForwardOrder] by blast
qed

text \<open>
  The claim as it stands fails when the counter wraps around: the hook \<open>NewHook\<close>
  returns after \<open>2 ^ 32\<close> hooks have been created carries the identifier of the first
  of them.
\<close>

theorem NewHook_fresh_counterexample:
  "case run_ops double_cap world0 (many_hooks (2 ^ 32)) of
     Inl f \<Rightarrow> False
   | Inr w \<Rightarrow>
       (case NewHook w ''x'' ForwardOrder of
          (h, w') \<Rightarrow>
            h \<noteq> Some 0 \<and> deref w' h \<noteq> None \<and> deref w' (Some 0) \<noteq> None
            \<and> map_option Id_h (deref w' h) = map_option Id_h (deref w' (Some 0)))"
proof -
  obtain w where r: "run_ops double_cap world0 (many_hooks (2 ^ 32)) = Inr w"
    and l: "length (hookHeap w) = 2 ^ 32"
    using run_many [of double_cap world0 "2 ^ 32" "''h''" ForwardOrder]
    unfolding many_hooks_def by (auto simp: world0_def)
  have wf: "wf_world w" by (rule wf_world_run_ops [OF wf_world0 r])
  have c: "hookCounter w = 0"
    using wf l by (simp add: wf_world_def)
  have d: "Id_h (hookHeap w ! 0) = of_nat (Suc 0)"
    by (rule wf_world_Id [OF wf]) (simp add: l)
  show ?thesis
    unfolding r using l c d by (simp add: NewHook_result deref_def nth_append)
qed

text \<open>
  Claim C3, amended: for every hook \<open>h\<close> of a running program, \<open>h.Copy()\<close> yields a
  hook whose identifier differs from the identifier of \<open>h\<close>, as long as fewer than
  \<open>2 ^ 32\<close> hooks have been created since \<open>h\<close> was, \<open>h\<close> counted; afterwards, appending
  cascade targets (with \<open>OnError\<close>) and callback entries to the copy and to the original,
  in any number and in any order, leaves the list of the other as it was: each of the
  two lists ends up as the list of \<open>h\<close> at the copy followed by what was appended to
  that very hook. The entries are shared, not cloned: the lists of the copy hold the
  pointers and the values the lists of \<open>h\<close> hold, and the copy is the only hook the
  call creates.

  The hook \<open>h\<close> is the hook created as number \<open>a + 1\<close>; the hooks of the program are
  those of a state reached from the start of the process by calls of the functions of
  hook.go and appends to \<open>Providers\<close>. The copy is the hook at the next free address,
  and \<open>ys\<close> is any sequence of appends to \<open>h\<close> and to it. The growth rule of
  \<open>append\<close> is arbitrary.
\<close>

theorem Copy_independent:
  assumes "run_ops gc world0 xs = Inr w" and "h = Some a" and "a < length (hookHeap w)"
    and "length (hookHeap w) - a < 2 ^ 32"
    and "list_all (appends_to h (Some (length (hookHeap w)))) ys"
  shows "case Copy w h of
           Inl f \<Rightarrow> False
         | Inr (c, w1) \<Rightarrow>
             c = Some (length (hookHeap w)) \<and> c \<noteq> h \<and> deref w c = None
             \<and> (case (deref w1 h, deref w1 c) of
                   (Some hk, Some hc) \<Rightarrow> Id_h hc \<noteq> Id_h hk
                 | _ \<Rightarrow> False)
             \<and> cascade w1 c = cascade w h \<and> providers w1 c = providers w h
             \<and> cascade w1 h = cascade w h \<and> providers w1 h = providers w h
             \<and> length (hookHeap w1) = Suc (length (hookHeap w))
             \<and> take (length (hookHeap w)) (hookHeap w1) = hookHeap w
             \<and> (case run_ops gc w1 ys of
                   Inl f \<Rightarrow> False
                 | Inr w2 \<Rightarrow>
                     cascade w2 h = cascade w h @ cascade_added h ys
                     \<and> cascade w2 c = cascade w h @ cascade_added c ys
                     \<and> providers w2 h = providers w h @ providers_added h ys
                     \<and> providers w2 c = providers w h @ providers_added c ys)"
proof -
  have wf: "wf_world w" by (rule wf_world_run_ops [OF wf_world0 assms(1)])
  define hk where "hk = hookHeap w ! a"
  have hk: "deref w h = Some hk" using assms(2,3) by (simp add: deref_def hk_def)
  have us: "usable_hook w hk" by (rule wf_world_usable [OF wf hk])
  let ?c = "Some (length (hookHeap w))"
  obtain w1 where r: "Copy w h = Inr (?c, w1)"
    using Copy_result [OF hk us] by blast
  obtain hc where hc: "deref w1 ?c = Some hc" and h1: "deref w1 h = Some hk"
    and idc: "Id_h hc = hookCounter w + 1"
    and cc: "cascade w1 ?c = cascade w h" and pc: "providers w1 ?c = providers w h"
    using Copy_lists [OF hk us r] by blast
  have sep: "separate w1 h ?c" by (rule Copy_separate [OF hk us r])
  have len: "length (hookHeap w1) = Suc (length (hookHeap w))"
    and tk: "take (length (hookHeap w)) (hookHeap w1) = hookHeap w"
    using r Copy_result [OF hk us] by auto
  have "Id_h hk = of_nat (Suc a)"
    unfolding hk_def by (rule wf_world_Id [OF wf assms(3)])
  moreover have "Id_h hc = of_nat (Suc (length (hookHeap w)))"
    using idc wf by (simp add: wf_world_def)
  ultimately have ids: "Id_h hc \<noteq> Id_h hk"
    using id_word_since [OF assms(3,4)] by (simp del: of_nat_Suc)
  have ha: "hookArrays w1 = hookArrays w @ [elems (hookArrays w) (InvokeOnError hk)]"
    and pa: "provArrays w1 = provArrays w @ [elems (provArrays w) (Providers hk)]"
    using r Copy_result [OF hk us] by auto
  have ch: "cascade w1 h = cascade w h"
    unfolding cascade_def h1 hk ha using us
    by (simp add: elems_append_arrays usable_hook_def)
  have ph: "providers w1 h = providers w h"
    unfolding providers_def h1 hk pa using us
    by (simp add: elems_append_arrays usable_hook_def)
  obtain w2 where r2: "run_ops gc w1 ys = Inr w2"
    and c2: "cascade w2 h = cascade w1 h @ cascade_added h ys"
      "cascade w2 ?c = cascade w1 ?c @ cascade_added ?c ys"
      "providers w2 h = providers w1 h @ providers_added h ys"
      "providers w2 ?c = providers w1 ?c @ providers_added ?c ys"
    using separate_run [OF sep assms(5), of gc] by blast
  show ?thesis
    unfolding r using assms(2,3) hc h1 ids cc pc ch ph len tk r2 c2
    by (simp add: deref_def)
qed

text \<open>
  The amended claim at the predefined \<open>Stop\<close> hook, and appends in turns to it and to
  its copy.
\<close>

theorem Copy_independent_witness:
  "run_ops double_cap world0 init_ops = Inr init_world
   \<and> (1 :: nat) < length (hookHeap init_world)
   \<and> length (hookHeap init_world) - 1 < 2 ^ 32
   \<and> list_all (appends_to (Some 1) (Some (length (hookHeap init_world)))) turn_appends
   \<and> cascade init_world (Some 1) = [Some 0]
   \<and> cascade_added (Some 1) turn_appends = [Some 2, Some 1]
   \<and> cascade_added (Some 3) turn_appends = [Some 2, Some 0]
   \<and> providers_added (Some 1) turn_appends = [Some 7, Some 9]
   \<and> providers_added (Some 3) turn_appends = [Some 8]
   \<and> (case Copy init_world (Some 1) of
         Inl f \<Rightarrow> False
       | Inr (c, w1) \<Rightarrow>
           c = Some (length (hookHeap init_world)) \<and> c \<noteq> Some 1 \<and> deref init_world c = None
           \<and> (case (deref w1 (Some 1), deref w1 c) of
                 (Some hk, Some hc) \<Rightarrow> Id_h hc \<noteq> Id_h hk
               | _ \<Rightarrow> False)
           \<and> cascade w1 c = cascade init_world (Some 1)
           \<and> providers w1 c = providers init_world (Some 1)
           \<and> cascade w1 (Some 1) = cascade init_world (Some 1)
           \<and> providers w1 (Some 1) = providers init_world (Some 1)
           \<and> length (hookHeap w1) = Suc (length (hookHeap init_world))
           \<and> take (length (hookHeap init_world)) (hookHeap w1) = hookHeap init_world
           \<and> (case run_ops double_cap w1 turn_appends of
                 Inl f \<Rightarrow> False
               | Inr w2 \<Rightarrow>
                   cascade w2 (Some 1)
                     = cascade init_world (Some 1) @ cascade_added (Some 1) turn_appends
                   \<and> cascade w2 c = cascade init_world (Some 1) @ cascade_added c turn_appends
                   \<and> providers w2 (Some 1)
                     = providers init_world (Some 1) @ providers_added (Some 1) turn_appends
                   \<and> providers w2 c
                     = providers init_world (Some 1) @ providers_added c turn_appends))"
proof -
  have d: "(1 :: nat) < length (hookHeap init_world)"
    by (simp add: init_world_def eval_defs)
  have l: "length (hookHeap init_world) - 1 < 2 ^ 32"
    by (simp add: init_world_def eval_defs)
  have a: "list_all (appends_to (Some 1) (Some (length (hookHeap init_world)))) turn_appends"
    by (simp add: init_world_def eval_defs turn_appends_def)
  have c: "cascade init_world (Some 1) = [Some 0]"
    by (simp add: init_world_def eval_defs)
  have e: "cascade_added (Some 1) turn_appends = [Some 2, Some 1]"
    "cascade_added (Some 3) turn_appends = [Some 2, Some 0]"
    "providers_added (Some 1) turn_appends = [Some 7, Some 9]"
    "providers_added (Some 3) turn_appends = [Some 8]"
    by (simp_all add: turn_appends_def)
  show ?thesis
    using init_ops_run d l a c e Copy_independent [OF init_ops_run refl d l a] by blast
qed

text \<open>
  The claim as it stands fails when the counter wraps around. After \<open>2 ^ 32\<close> hooks the
  counter is 0 again, and the copy of the first hook, whose identifier is 1, gets the
  identifier 1.
\<close>

theorem Copy_independent_counterexample:
  "case run_ops double_cap world0 (many_hooks (2 ^ 32)) of
     Inl f \<Rightarrow> False
   | Inr w \<Rightarrow>
       (case Copy w (Some 0) of
          Inl f \<Rightarrow> False
        | Inr (c, w') \<Rightarrow>
            c \<noteq> Some 0 \<and> deref w' c \<noteq> None \<and> deref w' (Some 0) \<noteq> None
            \<and> map_option Id_h (deref w' c) = map_option Id_h (deref w' (Some 0)))"
proof -
  obtain w where r: "run_ops double_cap world0 (many_hooks (2 ^ 32)) = Inr w"
    and l: "length (hookHeap w) = 2 ^ 32"
    using run_many [of double_cap world0 "2 ^ 32" "''h''" ForwardOrder]
    unfolding many_hooks_def by (auto simp: world0_def)
  have wf: "wf_world w" by (rule wf_world_run_ops [OF wf_world0 r])
  have c: "hookCounter w = 0"
    using wf l by (simp add: wf_world_def)
  have d: "Id_h (hookHeap w ! 0) = of_nat (Suc 0)"
    by (rule wf_world_Id [OF wf]) (simp add: l)
  have hk: "deref w (Some 0) = Some (hookHeap w ! 0)"
    using l by (simp add: deref_def)
  have us: "usable_hook w (hookHeap w ! 0)" by (rule wf_world_usable [OF wf hk])
  show ?thesis
    unfolding r using l c d
    by (simp add: Copy_result [OF hk us] deref_def nth_append)
qed

text \<open>
  Claim C1: dispatching a hook executes the registered callbacks in registration order
  when the ordering policy of the hook is Forward and in reverse registration order when
  it is Reverse.

  The code cannot do this, because \<open>ForwardOrder\<close> and \<open>ReverseOrder\<close> are the same
  string: a hook made with the one cannot be told from a hook made with the other. With
  the callbacks 1 and 2 registered in this order on a hook made with \<open>ForwardOrder\<close> and
  on a hook made with \<open>ReverseOrder\<close>, the dispatch of the spec, which asks for Reverse
  first, runs 2 before 1 on both; and no function of the order and the list of callbacks
  whatsoever returns the list for \<open>ForwardOrder\<close> and its reverse for \<open>ReverseOrder\<close>.
\<close>

theorem Do_order_not_told:
  "map_option Order (deref two_orders_world (Some 0)) = Some ForwardOrder
   \<and> map_option Order (deref two_orders_world (Some 1)) = Some ReverseOrder
   \<and> register two_orders_world empty_app
         [(Some 0, 1), (Some 0, 2), (Some 1, 1), (Some 1, 2)] = Inr two_orders_app
   \<and> Do 1 succeed two_orders_world two_orders_app (Some 0)
       = Some (Inr (None, [(2, None), (1, None)], two_orders_app))
   \<and> Do 1 succeed two_orders_world two_orders_app (Some 1)
       = Some (Inr (None, [(2, None), (1, None)], two_orders_app))
   \<and> \<not> (\<exists>run :: hookOrder \<Rightarrow> nat list \<Rightarrow> nat list.
           run ForwardOrder [1, 2] = [1, 2] \<and> run ReverseOrder [1, 2] = [2, 1])"
  by (simp add: eval_defs app_defs)






end
